theory Spec2Isabelle
  imports Complex_Main
begin

section \<open>The document store\<close>

text \<open>
  The application keeps three collections in a schema-less document store (Firestore):
  \<open>users\<close>, \<open>flats\<close> and \<open>messages\<close>. A collection is modelled as an association list
  from document ids to documents, in the order in which the store returns them.
  Form values and stored fields that JavaScript may hold as \<open>null\<close> are \<open>string option\<close>
  (\<open>None\<close> is \<open>null\<close>). Strings are lists of 8-bit characters, so a character stands for
  a code unit below 256.
\<close>

type_synonym docid = string

text \<open>
  A JavaScript number: \<open>NaN\<close>, the two infinities, or a finite value. The comparisons
  are those of the language: every comparison with \<open>NaN\<close> is false.
\<close>

datatype jsnum = NaN | NegInf | Fin real | PosInf

fun js_lt :: "jsnum \<Rightarrow> jsnum \<Rightarrow> bool" where
  "js_lt NaN _ = False"
| "js_lt _ NaN = False"
| "js_lt _ NegInf = False"
| "js_lt NegInf _ = True"
| "js_lt PosInf _ = False"
| "js_lt (Fin x) PosInf = True"
| "js_lt (Fin x) (Fin y) = (x < y)"

fun js_le :: "jsnum \<Rightarrow> jsnum \<Rightarrow> bool" where
  "js_le NaN _ = False"
| "js_le _ NaN = False"
| "js_le NegInf _ = True"
| "js_le _ PosInf = True"
| "js_le _ NegInf = False"
| "js_le PosInf _ = False"
| "js_le (Fin x) (Fin y) = (x \<le> y)"

definition js_isNaN :: "jsnum \<Rightarrow> bool" where
  "js_isNaN n = (n = NaN)"

record user_doc =
  firstName :: "string option"
  lastName :: "string option"
  email :: "string option"
  password :: "string option"
  birthDate :: "string option"
  favoriteFlats :: "docid list"
  isAdmin :: bool
  createdAt :: int

record flat_doc =
  adTitle :: "string option"
  city :: "string option"
  streetName :: "string option"
  streetNumber :: jsnum
  areaSize :: jsnum
  hasAC :: bool
  yearBuilt :: jsnum
  rentPrice :: jsnum
  dateAvailable :: "string option"
  image :: string
  flatCreatedAt :: int
  ownerID :: "docid option"

record message_doc =
  senderId :: docid
  flatID :: docid

record store =
  users :: "(docid \<times> user_doc) list"
  flats :: "(docid \<times> flat_doc) list"
  messages :: "(docid \<times> message_doc) list"

datatype coll = Users | Flats | Messages

datatype field = SenderId | FlatID | OwnerID | Email

text \<open>
  The calls the application makes on the store. Each call is recorded, in the order of
  issue, in a trace. A call may fail (the promise rejects): which calls fail is a
  parameter \<open>fl\<close> of every operation, so a theorem about all \<open>fl\<close> is a theorem about
  every pattern of store failures.
\<close>

datatype store_op = DeleteDoc coll docid | GetDocs coll field string | AddDoc coll

type_synonym faults = "store_op \<Rightarrow> bool"

type_synonym run = "store \<times> store_op list"

definition no_faults :: faults where
  "no_faults = (\<lambda>_. False)"

definition dropDoc :: "docid \<Rightarrow> (docid \<times> 'a) list \<Rightarrow> (docid \<times> 'a) list" where
  "dropDoc i ds = filter (\<lambda>d. fst d \<noteq> i) ds"

fun removeDoc :: "coll \<Rightarrow> docid \<Rightarrow> store \<Rightarrow> store" where
  "removeDoc Users i s = s\<lparr>users := dropDoc i (users s)\<rparr>"
| "removeDoc Flats i s = s\<lparr>flats := dropDoc i (flats s)\<rparr>"
| "removeDoc Messages i s = s\<lparr>messages := dropDoc i (messages s)\<rparr>"

text \<open>
  \<open>deleteDoc(doc(db, c, i))\<close>: deleting a document that does not exist succeeds and
  changes nothing; a failed call changes nothing either.
\<close>

fun deleteDoc :: "faults \<Rightarrow> coll \<Rightarrow> docid \<Rightarrow> run \<Rightarrow> bool \<times> run" where
  "deleteDoc fl c i (s, t) =
     (if fl (DeleteDoc c i) then (False, (s, t @ [DeleteDoc c i]))
      else (True, (removeDoc c i s, t @ [DeleteDoc c i])))"

text \<open>The value of a field of a document; \<open>None\<close> where the document has no such field.\<close>

fun message_field :: "field \<Rightarrow> message_doc \<Rightarrow> string option" where
  "message_field SenderId m = Some (senderId m)"
| "message_field FlatID m = Some (flatID m)"
| "message_field _ m = None"

fun flat_field :: "field \<Rightarrow> flat_doc \<Rightarrow> string option" where
  "flat_field OwnerID f = ownerID f"
| "flat_field _ f = None"

fun user_field :: "field \<Rightarrow> user_doc \<Rightarrow> string option" where
  "user_field Email u = email u"
| "user_field _ u = None"

definition whereEq :: "('a \<Rightarrow> string option) \<Rightarrow> string \<Rightarrow> (docid \<times> 'a) list \<Rightarrow> (docid \<times> 'a) list" where
  "whereEq get v ds = filter (\<lambda>d. get (snd d) = Some v) ds"

text \<open>\<open>getDocs(query(collection(db, c), where(fld, '==', v)))\<close>, one function per collection.\<close>

fun getDocsMessages :: "faults \<Rightarrow> field \<Rightarrow> string \<Rightarrow> run \<Rightarrow> (docid \<times> message_doc) list option \<times> run" where
  "getDocsMessages fl fld v (s, t) =
     (if fl (GetDocs Messages fld v) then (None, (s, t @ [GetDocs Messages fld v]))
      else (Some (whereEq (message_field fld) v (messages s)), (s, t @ [GetDocs Messages fld v])))"

fun getDocsFlats :: "faults \<Rightarrow> field \<Rightarrow> string \<Rightarrow> run \<Rightarrow> (docid \<times> flat_doc) list option \<times> run" where
  "getDocsFlats fl fld v (s, t) =
     (if fl (GetDocs Flats fld v) then (None, (s, t @ [GetDocs Flats fld v]))
      else (Some (whereEq (flat_field fld) v (flats s)), (s, t @ [GetDocs Flats fld v])))"

fun getDocsUsers :: "faults \<Rightarrow> field \<Rightarrow> string \<Rightarrow> run \<Rightarrow> (docid \<times> user_doc) list option \<times> run" where
  "getDocsUsers fl fld v (s, t) =
     (if fl (GetDocs Users fld v) then (None, (s, t @ [GetDocs Users fld v]))
      else (Some (whereEq (user_field fld) v (users s)), (s, t @ [GetDocs Users fld v])))"

section \<open>Removing a user: \<open>handleRemoveUser\<close>\<close>

text \<open>
  \<open>await Promise.all(ids.map((i) => deleteDoc(doc(db, c, i))))\<close>: \<open>map\<close> issues every
  deletion before anything is awaited, so each one is attempted whether or not another
  fails; the \<open>await\<close> throws when at least one of them fails. The store returned is the
  one reached when all the deletions have settled.
\<close>

fun deleteAll :: "faults \<Rightarrow> coll \<Rightarrow> docid list \<Rightarrow> run \<Rightarrow> bool \<times> run" where
  "deleteAll fl c [] r = (True, r)"
| "deleteAll fl c (i # is) r =
     (case deleteDoc fl c i r of (ok, r') \<Rightarrow>
        (case deleteAll fl c is r' of (oks, r'') \<Rightarrow> (ok \<and> oks, r'')))"

text \<open>Step 4, the loop over the ids of the user's flats: query the messages of the flat, delete them.\<close>

fun deleteFlatMessages :: "faults \<Rightarrow> docid list \<Rightarrow> run \<Rightarrow> bool \<times> run" where
  "deleteFlatMessages fl [] r = (True, r)"
| "deleteFlatMessages fl (flatId # flatIds) r =
     (case getDocsMessages fl FlatID flatId r of
        (None, r') \<Rightarrow> (False, r')
      | (Some flatMessagesSnap, r') \<Rightarrow>
          (case deleteAll fl Messages (map fst flatMessagesSnap) r' of
             (False, r'') \<Rightarrow> (False, r'')
           | (True, r'') \<Rightarrow> deleteFlatMessages fl flatIds r''))"

text \<open>
  What a call of \<open>handleRemoveUser\<close> leaves behind: the store, the trace of the store
  calls it issued, the list of users held by the caller (the state behind \<open>setUsers\<close>),
  and whether the \<open>catch\<close> block ran (\<open>alert('Failed to remove user.')\<close>).
\<close>

record removal =
  store_after :: store
  trace :: "store_op list"
  cache :: "(docid \<times> user_doc) list"
  alerted :: bool

definition failed :: "run \<Rightarrow> (docid \<times> user_doc) list \<Rightarrow> removal" where
  "failed r prevUsers = \<lparr>store_after = fst r, trace = snd r, cache = prevUsers, alerted = True\<rparr>"

definition handleRemoveUser :: "faults \<Rightarrow> docid \<Rightarrow> store \<Rightarrow> (docid \<times> user_doc) list \<Rightarrow> removal" where
  "handleRemoveUser fl userId s prevUsers =
     (case deleteDoc fl Users userId (s, []) of
        (False, r1) \<Rightarrow> failed r1 prevUsers
      | (True, r1) \<Rightarrow>
     (case getDocsMessages fl SenderId userId r1 of
        (None, r2) \<Rightarrow> failed r2 prevUsers
      | (Some messagesSnap, r2) \<Rightarrow>
     (case deleteAll fl Messages (map fst messagesSnap) r2 of
        (False, r3) \<Rightarrow> failed r3 prevUsers
      | (True, r3) \<Rightarrow>
     (case getDocsFlats fl OwnerID userId r3 of
        (None, r4) \<Rightarrow> failed r4 prevUsers
      | (Some flatsSnap, r4) \<Rightarrow>
     (case deleteFlatMessages fl (map fst flatsSnap) r4 of
        (False, r5) \<Rightarrow> failed r5 prevUsers
      | (True, r5) \<Rightarrow>
     (case deleteAll fl Flats (map fst flatsSnap) r5 of
        (False, r6) \<Rightarrow> failed r6 prevUsers
      | (True, r6) \<Rightarrow>
          \<lparr>store_after = fst r6, trace = snd r6,
           cache = filter (\<lambda>user. fst user \<noteq> userId) prevUsers, alerted = False\<rparr>))))))"

text \<open>
  The ids found by the three kinds of lookup of \<open>handleRemoveUser\<close>: the messages sent by
  a user, the flats a user owns, the messages attached to a flat.
\<close>

definition sentMessageIds :: "docid \<Rightarrow> store \<Rightarrow> docid list" where
  "sentMessageIds u s = map fst (whereEq (message_field SenderId) u (messages s))"

definition ownedFlatIds :: "docid \<Rightarrow> store \<Rightarrow> docid list" where
  "ownedFlatIds u s = map fst (whereEq (flat_field OwnerID) u (flats s))"

definition flatMessageIds :: "docid \<Rightarrow> store \<Rightarrow> docid list" where
  "flatMessageIds f s = map fst (whereEq (message_field FlatID) f (messages s))"

subsection \<open>Traces\<close>

text \<open>\<open>precedes a b t\<close>: some occurrence of \<open>a\<close> in the trace \<open>t\<close> comes before some occurrence of \<open>b\<close>.\<close>

fun precedes :: "'a \<Rightarrow> 'a \<Rightarrow> 'a list \<Rightarrow> bool" where
  "precedes a b [] = False"
| "precedes a b (x # xs) = ((x = a \<and> b \<in> set xs) \<or> precedes a b xs)"

text \<open>A trace is clean when none of its calls fails.\<close>

definition clean :: "faults \<Rightarrow> store_op list \<Rightarrow> bool" where
  "clean fl e = list_all (\<lambda>op. \<not> fl op) e"

text \<open>A document is deleted by a trace when the trace holds a deletion of it that does not fail.\<close>

definition deleted :: "faults \<Rightarrow> store_op list \<Rightarrow> coll \<Rightarrow> docid \<Rightarrow> bool" where
  "deleted fl e c i = (DeleteDoc c i \<in> set e \<and> \<not> fl (DeleteDoc c i))"

definition minus_deleted :: "faults \<Rightarrow> store_op list \<Rightarrow> store \<Rightarrow> store" where
  "minus_deleted fl e s =
     \<lparr>users = filter (\<lambda>d. \<not> deleted fl e Users (fst d)) (users s),
      flats = filter (\<lambda>d. \<not> deleted fl e Flats (fst d)) (flats s),
      messages = filter (\<lambda>d. \<not> deleted fl e Messages (fst d)) (messages s)\<rparr>"

definition removeDocs :: "coll \<Rightarrow> docid list \<Rightarrow> store \<Rightarrow> store" where
  "removeDocs c is s = fold (removeDoc c) is s"

text \<open>
  The calls that one \<open>await\<close> waits for: a single lookup, or the deletions of one
  \<open>Promise.all\<close>. A trace is aborted when it is a clean trace followed by one such group
  in which a call fails.
\<close>

definition batch :: "store_op list \<Rightarrow> bool" where
  "batch b = ((\<exists>c f v. b = [GetDocs c f v]) \<or> (\<exists>c ids. b = map (DeleteDoc c) ids))"

definition aborted :: "faults \<Rightarrow> store_op list \<Rightarrow> bool" where
  "aborted fl e = (\<exists>pre b. e = pre @ b \<and> clean fl pre \<and> \<not> clean fl b \<and> batch b)"

text \<open>The calls of steps 2 to 4: lookups and deletions of messages.\<close>

fun message_stage_op :: "store_op \<Rightarrow> bool" where
  "message_stage_op (DeleteDoc Messages _) = True"
| "message_stage_op (GetDocs _ _ _) = True"
| "message_stage_op _ = False"

text \<open>The calls of steps 1 and 2, of the lookup of step 3, and of step 5.\<close>

definition sentStage :: "docid \<Rightarrow> store \<Rightarrow> store_op list" where
  "sentStage u s =
     DeleteDoc Users u # GetDocs Messages SenderId u # map (DeleteDoc Messages) (sentMessageIds u s)"

definition flatsQuery :: "docid \<Rightarrow> store_op" where
  "flatsQuery u = GetDocs Flats OwnerID u"

definition flatsStage :: "docid \<Rightarrow> store \<Rightarrow> store_op list" where
  "flatsStage u s = map (DeleteDoc Flats) (ownedFlatIds u s)"

text \<open>
  The runs of the loop of step 4 as a relation: \<open>loop_run fl fs s ok e\<close> holds when the
  loop over the flat ids \<open>fs\<close>, started in store \<open>s\<close>, issues the calls \<open>e\<close> and ends
  normally (\<open>ok\<close>) or by a failed call.
\<close>

inductive loop_run :: "faults \<Rightarrow> docid list \<Rightarrow> store \<Rightarrow> bool \<Rightarrow> store_op list \<Rightarrow> bool" for fl where
  finished: "loop_run fl [] s True []"
| query_failed: "fl (GetDocs Messages FlatID f) \<Longrightarrow>
     loop_run fl (f # fs) s False [GetDocs Messages FlatID f]"
| batch_failed: "\<not> fl (GetDocs Messages FlatID f) \<Longrightarrow>
     \<not> clean fl (map (DeleteDoc Messages) (flatMessageIds f s)) \<Longrightarrow>
     loop_run fl (f # fs) s False
       (GetDocs Messages FlatID f # map (DeleteDoc Messages) (flatMessageIds f s))"
| continue: "\<not> fl (GetDocs Messages FlatID f) \<Longrightarrow>
     clean fl (map (DeleteDoc Messages) (flatMessageIds f s)) \<Longrightarrow>
     loop_run fl fs (minus_deleted fl (map (DeleteDoc Messages) (flatMessageIds f s)) s) ok e \<Longrightarrow>
     loop_run fl (f # fs) s ok
       (GetDocs Messages FlatID f # map (DeleteDoc Messages) (flatMessageIds f s) @ e)"

section \<open>Form actions\<close>

text \<open>
  A submitted form is a function from field names to values: \<open>formData.get(name)\<close>,
  \<open>None\<close> for \<open>null\<close>. The entry \<open>image\<close> of the new-flat form is a file; it is modelled
  by its name. An action answers with an object of errors (field name and message, in
  the order in which the keys were set) or with success.
\<close>

type_synonym formData = "string \<Rightarrow> string option"

datatype response = Errors "(string \<times> string) list" | Success | SuccessUser docid

text \<open>The keys of the \<open>errors\<close> object that were given a message.\<close>

fun collect :: "(string \<times> string option) list \<Rightarrow> (string \<times> string) list" where
  "collect [] = []"
| "collect ((k, None) # es) = collect es"
| "collect ((k, Some m) # es) = (k, m) # collect es"

text \<open>\<open>!v || p(v)\<close> for a form value: \<open>null\<close> and the empty string are falsy.\<close>

definition falsy_or :: "string option \<Rightarrow> (string \<Rightarrow> bool) \<Rightarrow> bool" where
  "falsy_or v p = (case v of None \<Rightarrow> True | Some x \<Rightarrow> x = [] \<or> p x)"

subsection \<open>Regular expressions\<close>

text \<open>The character classes \<open>\<^verbatim>\<open>\s\<close>\<close>, \<open>\<^verbatim>\<open>\d\<close>\<close>, \<open>[a-zA-Z]\<close> and \<open>\<^verbatim>\<open>\w\<close>\<close> on code units below 256.\<close>

definition isSpace :: "char \<Rightarrow> bool" where
  "isSpace c = ((of_char c :: nat) \<in> {9, 10, 11, 12, 13, 32, 160})"

definition isDigit :: "char \<Rightarrow> bool" where
  "isDigit c = (48 \<le> (of_char c :: nat) \<and> (of_char c :: nat) \<le> 57)"

definition isLetter :: "char \<Rightarrow> bool" where
  "isLetter c = ((65 \<le> (of_char c :: nat) \<and> (of_char c :: nat) \<le> 90) \<or>
                 (97 \<le> (of_char c :: nat) \<and> (of_char c :: nat) \<le> 122))"

definition isWord :: "char \<Rightarrow> bool" where
  "isWord c = (isLetter c \<or> isDigit c \<or> c = CHR ''_'')"

text \<open>\<open>[^\s@]\<close>\<close>

definition plain :: "char \<Rightarrow> bool" where
  "plain c = (\<not> isSpace c \<and> c \<noteq> CHR ''@'')"

text \<open>
  \<open>/^[^\s@]+@[^\s@]+\.[^\s@]+$/.test(v)\<close>: a non-empty run of plain characters, an \<open>@\<close>,
  then plain characters only, among them a dot that is neither the first nor the last.
\<close>

definition emailRegex :: "string \<Rightarrow> bool" where
  "emailRegex v =
     (takeWhile plain v \<noteq> [] \<and>
      (case dropWhile plain v of
         [] \<Rightarrow> False
       | c # d \<Rightarrow> c = CHR ''@'' \<and> list_all plain d \<and> CHR ''.'' \<in> set (butlast (tl d))))"

text \<open>\<open>/[a-zA-Z]/.test(v)\<close>, \<open>/\d/.test(v)\<close> and \<open>/[^\w\s]/.test(v)\<close>\<close>

definition hasLetter :: "string \<Rightarrow> bool" where
  "hasLetter v = list_ex isLetter v"

definition hasDigit :: "string \<Rightarrow> bool" where
  "hasDigit v = list_ex isDigit v"

definition hasSpecial :: "string \<Rightarrow> bool" where
  "hasSpecial v = list_ex (\<lambda>c. \<not> isWord c \<and> \<not> isSpace c) v"

subsection \<open>Login: \<open>validateField\<close> and \<open>loginAction\<close>\<close>

definition validateField :: "string \<Rightarrow> string option \<Rightarrow> string option" where
  "validateField name value =
     (if name = ''email'' \<and> falsy_or value (\<lambda>v. \<not> emailRegex v)
        then Some ''Email must be in a valid format.''
      else if name = ''password'' \<and> falsy_or value (\<lambda>v. length v < 6)
        then Some ''Password must be at least 6 characters long.''
      else if name = ''password'' \<and> falsy_or value (\<lambda>v. \<not> hasLetter v \<or> \<not> hasDigit v \<or> \<not> hasSpecial v)
        then Some ''Password must include letters, numbers, and a special character.''
      else None)"

text \<open>
  The lookup is by the submitted email, which is a string once validation has passed:
  \<open>validateField\<close> rejects \<open>null\<close>, so the branch for \<open>None\<close> below is never taken.
\<close>

definition loginAction :: "faults \<Rightarrow> store \<Rightarrow> formData \<Rightarrow> response" where
  "loginAction fl s formData =
     (let errors = collect [(''email'', validateField ''email'' (formData ''email'')),
                            (''password'', validateField ''password'' (formData ''password''))]
      in if errors \<noteq> [] then Errors errors
         else (case formData ''email'' of
                 None \<Rightarrow> Errors [(''general'', ''Login failed. Please try again later.'')]
               | Some e \<Rightarrow>
                   (case fst (getDocsUsers fl Email e (s, [])) of
                      None \<Rightarrow> Errors [(''general'', ''Login failed. Please try again later.'')]
                    | Some [] \<Rightarrow> Errors [(''general'', ''Invalid credentials.'')]
                    | Some ((userID, user) # _) \<Rightarrow>
                        if password user \<noteq> formData ''password''
                        then Errors [(''general'', ''Invalid credentials.'')]
                        else SuccessUser userID)))"

subsection \<open>The environment of the actions\<close>

text \<open>
  What the actions read from outside the store: the clock, \<open>localStorage\<close>, the id that
  \<open>addDoc\<close> assigns, the conversions of the language (\<open>Number\<close> on a string, the time value
  of \<open>new Date(s)\<close>), and the two helpers of the repository whose files are not part of the
  sources at hand, \<open>calculateAge\<close> and \<open>getOneYearFromToday\<close>. All are parameters.
\<close>

record env =
  number :: "string \<Rightarrow> jsnum"
  dateTime :: "string \<Rightarrow> jsnum"
  calculateAge :: "string \<Rightarrow> jsnum"
  currentYear :: int
  today :: jsnum
  midnightOf :: "string \<Rightarrow> jsnum"
  oneYearFromToday :: jsnum
  rangeMessage :: string
  now :: int
  loggedInUser :: "docid option"
  newId :: docid

text \<open>\<open>addDoc(collection(db, c), doc)\<close>: the document is stored under a new id, unless the call fails.\<close>

definition addDocUsers :: "faults \<Rightarrow> docid \<Rightarrow> user_doc \<Rightarrow> store \<Rightarrow> bool \<times> store" where
  "addDocUsers fl i d s =
     (if fl (AddDoc Users) then (False, s) else (True, s\<lparr>users := users s @ [(i, d)]\<rparr>))"

definition addDocFlats :: "faults \<Rightarrow> docid \<Rightarrow> flat_doc \<Rightarrow> store \<Rightarrow> bool \<times> store" where
  "addDocFlats fl i d s =
     (if fl (AddDoc Flats) then (False, s) else (True, s\<lparr>flats := flats s @ [(i, d)]\<rparr>))"

subsection \<open>Registration: \<open>registerAction\<close>\<close>

text \<open>The field validations of \<open>registerAction\<close>, in the order of the source.\<close>

definition registerErrors :: "env \<Rightarrow> formData \<Rightarrow> (string \<times> string) list" where
  "registerErrors en formData =
     collect
       [(''firstName'',
           if falsy_or (formData ''firstName'') (\<lambda>v. length v < 2)
           then Some ''First name must be at least 2 characters.'' else None),
        (''lastName'',
           if falsy_or (formData ''lastName'') (\<lambda>v. length v < 2)
           then Some ''Last name must be at least 2 characters.'' else None),
        (''email'',
           if falsy_or (formData ''email'') (\<lambda>v. \<not> emailRegex v)
           then Some ''Email must be in a valid format.'' else None),
        (''password'',
           if falsy_or (formData ''password'') (\<lambda>v. length v < 6)
           then Some ''Password must be at least 6 characters long.''
           else if falsy_or (formData ''password'') (\<lambda>v. \<not> hasLetter v \<or> \<not> hasDigit v \<or> \<not> hasSpecial v)
           then Some ''Password must include letters, numbers, and a special character.'' else None),
        (''confirmPassword'',
           if formData ''password'' \<noteq> formData ''confirmPassword''
           then Some ''Passwords do not match.'' else None),
        (''birthDate'',
           if falsy_or (formData ''birthDate'') (\<lambda>v. js_isNaN (dateTime en v))
           then Some ''Birth date is required.''
           else if falsy_or (formData ''birthDate'')
                     (\<lambda>v. js_lt (calculateAge en v) (Fin 18) \<or> js_lt (Fin 120) (calculateAge en v))
           then Some ''Age must be between 18 and 120.'' else None)]"

definition registerAction :: "env \<Rightarrow> faults \<Rightarrow> store \<Rightarrow> formData \<Rightarrow> response \<times> store" where
  "registerAction en fl s formData =
     (let errors = registerErrors en formData
      in if errors \<noteq> [] then (Errors errors, s)
         else (case formData ''email'' of
                 None \<Rightarrow> (Errors [(''general'', ''Registration failed. Please try again.'')], s)
               | Some e \<Rightarrow>
                   (case fst (getDocsUsers fl Email e (s, [])) of
                      None \<Rightarrow> (Errors [(''general'', ''Registration failed. Please try again.'')], s)
                    | Some existingUsersSnapshot \<Rightarrow>
                        if existingUsersSnapshot \<noteq> []
                        then (Errors [(''email'',
                                ''This email is not available. Please try another or log in if you already have an account.'')], s)
                        else (case addDocUsers fl (newId en)
                                     \<lparr>firstName = formData ''firstName'', lastName = formData ''lastName'',
                                      email = formData ''email'', password = formData ''password'',
                                      birthDate = formData ''birthDate'', favoriteFlats = [],
                                      isAdmin = False, createdAt = now en\<rparr> s of
                                (False, s') \<Rightarrow> (Errors [(''general'', ''Registration failed. Please try again.'')], s')
                              | (True, s') \<Rightarrow> (Success, s')))))"

subsection \<open>A new flat: \<open>newFlatAction\<close>\<close>

text \<open>\<open>Number(v)\<close>, \<open>isNaN(v)\<close> and the comparisons of a form value with a number convert the value first; \<open>null\<close> converts to 0.\<close>

definition toNumber :: "env \<Rightarrow> string option \<Rightarrow> jsnum" where
  "toNumber en v = (case v of None \<Rightarrow> Fin 0 | Some x \<Rightarrow> number en x)"

definition newFlatErrors :: "env \<Rightarrow> formData \<Rightarrow> (string \<times> string) list" where
  "newFlatErrors en formData =
     collect
       [(''adTitle'',
           if falsy_or (formData ''adTitle'') (\<lambda>v. length v < 5 \<or> length v > 60)
           then Some ''Ad title must be between 5 and 60 characters.'' else None),
        (''city'',
           if falsy_or (formData ''city'') (\<lambda>v. length v < 2)
           then Some ''City name must be at least 2 characters.'' else None),
        (''streetName'',
           if falsy_or (formData ''streetName'') (\<lambda>v. length v < 2)
           then Some ''Street name must be at least 2 characters.'' else None),
        (''streetNumber'',
           if falsy_or (formData ''streetNumber'') (\<lambda>v. js_isNaN (number en v))
           then Some ''Street number must be greater than zero.'' else None),
        (''areaSize'',
           if falsy_or (formData ''areaSize'') (\<lambda>v. js_isNaN (number en v) \<or> js_le (number en v) (Fin 0))
           then Some ''Area size must be a valid positive number.'' else None),
        (''yearBuilt'',
           if falsy_or (formData ''yearBuilt'')
                (\<lambda>v. js_isNaN (number en v) \<or> js_lt (number en v) (Fin 1900) \<or>
                      js_lt (Fin (of_int (currentYear en))) (number en v))
           then Some ''Year built must be between 1900 and the current year.'' else None),
        (''rentPrice'',
           if falsy_or (formData ''rentPrice'') (\<lambda>v. js_isNaN (number en v) \<or> js_le (number en v) (Fin 0))
           then Some ''Rent price must be greater than zero.'' else None),
        (''dateAvailable'',
           if falsy_or (formData ''dateAvailable'') (\<lambda>v. False)
           then Some ''Date available is required.''
           else if falsy_or (formData ''dateAvailable'')
                     (\<lambda>v. js_lt (midnightOf en v) (today en) \<or> js_lt (oneYearFromToday en) (midnightOf en v))
           then Some (rangeMessage en) else None),
        (''image'',
           if falsy_or (formData ''image'') (\<lambda>v. False)
           then Some ''Image file is required.'' else None)]"

text \<open>
  In the \<open>try\<close> block \<open>imageFile.name\<close> is read; on \<open>null\<close> that throws and the \<open>catch\<close>
  block answers (validation rejects \<open>null\<close>, so this does not happen).
\<close>

definition newFlatAction :: "env \<Rightarrow> faults \<Rightarrow> store \<Rightarrow> formData \<Rightarrow> response \<times> store" where
  "newFlatAction en fl s formData =
     (let errors = newFlatErrors en formData
      in if errors \<noteq> [] then (Errors errors, s)
         else (case formData ''image'' of
                 None \<Rightarrow> (Errors [(''general'', ''Failed to add flat. Please try again.'')], s)
               | Some imagePath \<Rightarrow>
                   (case addDocFlats fl (newId en)
                          \<lparr>adTitle = formData ''adTitle'', city = formData ''city'',
                           streetName = formData ''streetName'',
                           streetNumber = toNumber en (formData ''streetNumber''),
                           areaSize = toNumber en (formData ''areaSize''),
                           hasAC = (formData ''hasAC'' = Some ''on''),
                           yearBuilt = toNumber en (formData ''yearBuilt''),
                           rentPrice = toNumber en (formData ''rentPrice''),
                           dateAvailable = formData ''dateAvailable'',
                           image = imagePath, flatCreatedAt = now en,
                           ownerID = loggedInUser en\<rparr> s of
                      (False, s') \<Rightarrow> (Errors [(''general'', ''Failed to add flat. Please try again.'')], s')
                    | (True, s') \<Rightarrow> (Success, s'))))"

section \<open>Example data\<close>

text \<open>
  The scenario of the specification: user \<open>u1\<close> owns the flats \<open>f1\<close> and \<open>f2\<close>, user \<open>u2\<close>
  owns \<open>f3\<close>; \<open>m1\<close> is sent by \<open>u1\<close> about \<open>f3\<close>, \<open>m2\<close> by \<open>u2\<close> about \<open>f1\<close>, \<open>m3\<close> by \<open>u1\<close>
  about \<open>f1\<close>.
\<close>

definition example_user :: "string \<Rightarrow> string \<Rightarrow> user_doc" where
  "example_user e p =
     \<lparr>firstName = Some ''Ann'', lastName = Some ''Lee'', email = Some e, password = Some p,
      birthDate = Some ''1990-05-17'', favoriteFlats = [], isAdmin = False, createdAt = 0\<rparr>"

definition example_flat :: "docid \<Rightarrow> flat_doc" where
  "example_flat u =
     \<lparr>adTitle = Some ''Sunny flat'', city = Some ''Cluj'', streetName = Some ''Memorandumului'',
      streetNumber = Fin 12, areaSize = Fin 55, hasAC = True, yearBuilt = Fin 1990,
      rentPrice = Fin 800, dateAvailable = Some ''2026-12-01'', image = ''flat.jpg'',
      flatCreatedAt = 0, ownerID = Some u\<rparr>"

definition example_store :: store where
  "example_store =
     \<lparr>users = [(''u1'', example_user ''ann@example.com'' ''secret1!''),
               (''u2'', example_user ''bob@example.com'' ''hunter2#'')],
      flats = [(''f1'', example_flat ''u1''), (''f2'', example_flat ''u1''), (''f3'', example_flat ''u2'')],
      messages = [(''m1'', \<lparr>senderId = ''u1'', flatID = ''f3''\<rparr>),
                  (''m2'', \<lparr>senderId = ''u2'', flatID = ''f1''\<rparr>),
                  (''m3'', \<lparr>senderId = ''u1'', flatID = ''f1''\<rparr>)]\<rparr>"

text \<open>Three patterns of failure: one lookup or one deletion fails, every other call succeeds.\<close>

definition sent_lookup_fails :: faults where
  "sent_lookup_fails op = (op = GetDocs Messages SenderId ''u1'')"

definition flat_lookup_fails :: faults where
  "flat_lookup_fails op = (op = GetDocs Messages FlatID ''f2'')"

definition message_delete_fails :: faults where
  "message_delete_fails op = (op = DeleteDoc Messages ''m1'')"

text \<open>An environment: a conversion that knows a few numerals, a clock in November 2026.\<close>

definition example_number :: "string \<Rightarrow> jsnum" where
  "example_number v =
     (if v = ''12'' then Fin 12 else if v = ''55'' then Fin 55 else if v = ''1990'' then Fin 1990
      else if v = ''800'' then Fin 800 else NaN)"

definition example_env :: env where
  "example_env =
     \<lparr>number = example_number,
      dateTime = (\<lambda>v. if v = ''1990-05-17'' then Fin 642902400000 else NaN),
      calculateAge = (\<lambda>v. if v = ''1990-05-17'' then Fin 36 else NaN),
      currentYear = 2026,
      today = Fin 1793577600000,
      midnightOf = (\<lambda>v. if v = ''2026-12-01'' then Fin 1796083200000 else NaN),
      oneYearFromToday = Fin 1825113600000,
      rangeMessage = ''Date available must be today (11/02/2026) or within one year from today (11/02/2027).'',
      now = 1793620800000,
      loggedInUser = Some ''u1'',
      newId = ''n1''\<rparr>"

definition example_flat_form :: formData where
  "example_flat_form =
     map_of [(''adTitle'', ''Sunny flat''), (''city'', ''Cluj''), (''streetName'', ''Memorandumului''),
             (''streetNumber'', ''12''), (''areaSize'', ''55''), (''hasAC'', ''on''),
             (''yearBuilt'', ''1990''), (''rentPrice'', ''800''), (''dateAvailable'', ''2026-12-01''),
             (''image'', ''flat.jpg'')]"

definition example_register_form :: formData where
  "example_register_form =
     map_of [(''firstName'', ''Cara''), (''lastName'', ''Pop''), (''email'', ''cara@example.com''),
             (''password'', ''passw0rd!''), (''confirmPassword'', ''passw0rd!''),
             (''birthDate'', ''1990-05-17'')]"

definition example_login_form :: "string \<Rightarrow> string \<Rightarrow> formData" where
  "example_login_form e p = map_of [(''email'', e), (''password'', p)]"

section \<open>Properties of the store operations\<close>

lemma precedes_append:
  "precedes a b (xs @ ys) = (precedes a b xs \<or> (a \<in> set xs \<and> b \<in> set ys) \<or> precedes a b ys)"
  by (induction xs) auto

lemma precedes_iff_split:
  "precedes a b t = (\<exists>xs ys zs. t = xs @ a # ys @ b # zs)"
proof (induction t)
  case Nil
  show ?case by simp
next
  case (Cons x t)
  show ?case
  proof
    assume "precedes a b (x # t)"
    then consider "x = a" "b \<in> set t" | "precedes a b t" by auto
    then show "\<exists>xs ys zs. x # t = xs @ a # ys @ b # zs"
    proof cases
      case 1
      from \<open>b \<in> set t\<close> obtain ys zs where "t = ys @ b # zs" by (auto simp: in_set_conv_decomp)
      with 1 have "x # t = [] @ a # ys @ b # zs" by simp
      then show ?thesis by blast
    next
      case 2
      with Cons obtain xs ys zs where "t = xs @ a # ys @ b # zs" by blast
      then have "x # t = (x # xs) @ a # ys @ b # zs" by simp
      then show ?thesis by blast
    qed
  next
    assume "\<exists>xs ys zs. x # t = xs @ a # ys @ b # zs"
    then obtain xs ys zs where e: "x # t = xs @ a # ys @ b # zs" by blast
    show "precedes a b (x # t)"
    proof (cases xs)
      case Nil
      with e show ?thesis by auto
    next
      case (Cons x' xs')
      with e have "t = xs' @ a # ys @ b # zs" by simp
      with Cons.IH show ?thesis by auto
    qed
  qed
qed

lemma removeDocs_users:
  "users (removeDocs c is s) = (if c = Users then filter (\<lambda>d. fst d \<notin> set is) (users s) else users s)"
  unfolding removeDocs_def
  by (induction "is" arbitrary: s) (cases c; auto simp: dropDoc_def intro: filter_cong)+

lemma removeDocs_flats:
  "flats (removeDocs c is s) = (if c = Flats then filter (\<lambda>d. fst d \<notin> set is) (flats s) else flats s)"
  unfolding removeDocs_def
  by (induction "is" arbitrary: s) (cases c; auto simp: dropDoc_def intro: filter_cong)+

lemma removeDocs_messages:
  "messages (removeDocs c is s) = (if c = Messages then filter (\<lambda>d. fst d \<notin> set is) (messages s) else messages s)"
  unfolding removeDocs_def
  by (induction "is" arbitrary: s) (cases c; auto simp: dropDoc_def intro: filter_cong)+

lemma deleteDoc_spec:
  "deleteDoc fl c i (s, t) =
     (\<not> fl (DeleteDoc c i), (if fl (DeleteDoc c i) then s else removeDoc c i s, t @ [DeleteDoc c i]))"
  by simp

lemma deleteAll_spec:
  "deleteAll fl c ids (s, t) =
     (list_all (\<lambda>i. \<not> fl (DeleteDoc c i)) ids,
      (removeDocs c (filter (\<lambda>i. \<not> fl (DeleteDoc c i)) ids) s, t @ map (DeleteDoc c) ids))"
  by (induction ids arbitrary: s t) (auto simp: removeDocs_def)

lemma clean_simps [simp]:
  "clean fl []"
  "clean fl (op # e) = (\<not> fl op \<and> clean fl e)"
  "clean fl (e @ e') = (clean fl e \<and> clean fl e')"
  by (auto simp: clean_def)

lemma clean_iff: "clean fl e = (\<forall>op\<in>set e. \<not> fl op)"
  by (simp add: clean_def list_all_iff)

lemma minus_deleted_Nil: "minus_deleted fl [] s = s"
  by (simp add: minus_deleted_def deleted_def)

lemma minus_deleted_append:
  "minus_deleted fl e2 (minus_deleted fl e1 s) = minus_deleted fl (e1 @ e2) s"
  by (auto simp: minus_deleted_def deleted_def intro: filter_cong)

lemma minus_deleted_query:
  "minus_deleted fl [GetDocs c f v] s = s"
  by (simp add: minus_deleted_def deleted_def)

lemma removeDocs_minus:
  "removeDocs c (filter (\<lambda>i. \<not> fl (DeleteDoc c i)) ids) s = minus_deleted fl (map (DeleteDoc c) ids) s"
  by (rule store.equality)
     (auto simp: removeDocs_users removeDocs_flats removeDocs_messages minus_deleted_def deleted_def
                 image_iff intro: filter_cong)

lemma deleteAll_eq:
  "deleteAll fl c ids (s, t) =
     (clean fl (map (DeleteDoc c) ids), (minus_deleted fl (map (DeleteDoc c) ids) s, t @ map (DeleteDoc c) ids))"
  by (simp add: deleteAll_spec removeDocs_minus clean_def list.pred_map comp_def)

lemma deleteDoc_eq:
  "deleteDoc fl c i (s, t) = (\<not> fl (DeleteDoc c i), (minus_deleted fl [DeleteDoc c i] s, t @ [DeleteDoc c i]))"
  using deleteAll_eq [of fl c "[i]" s t] by (simp split: prod.splits)

lemma deleteFlatMessages_Cons:
  "deleteFlatMessages fl (f # fs) (s, t) =
     (if fl (GetDocs Messages FlatID f) then (False, (s, t @ [GetDocs Messages FlatID f]))
      else if \<not> clean fl (map (DeleteDoc Messages) (flatMessageIds f s))
      then (False, (minus_deleted fl (map (DeleteDoc Messages) (flatMessageIds f s)) s,
                    t @ GetDocs Messages FlatID f # map (DeleteDoc Messages) (flatMessageIds f s)))
      else deleteFlatMessages fl fs
             (minus_deleted fl (map (DeleteDoc Messages) (flatMessageIds f s)) s,
              t @ GetDocs Messages FlatID f # map (DeleteDoc Messages) (flatMessageIds f s)))"
  by (simp add: deleteAll_eq flatMessageIds_def)

declare deleteFlatMessages.simps(2) [simp del]

lemma minus_deleted_query_Cons: "minus_deleted fl (GetDocs c f v # e) s = minus_deleted fl e s"
  by (simp add: minus_deleted_def deleted_def)

lemma deleteFlatMessages_run:
  "deleteFlatMessages fl fs (s, t) = (ok, (s', t')) \<Longrightarrow>
     \<exists>e. t' = t @ e \<and> s' = minus_deleted fl e s \<and> loop_run fl fs s ok e"
proof (induction fs arbitrary: s t)
  case Nil
  then show ?case by (auto simp: minus_deleted_Nil intro: loop_run.finished)
next
  case (Cons f fs)
  let ?q = "GetDocs Messages FlatID f"
  let ?b = "map (DeleteDoc Messages) (flatMessageIds f s)"
  consider (query) "fl ?q" | (batch) "\<not> fl ?q" "\<not> clean fl ?b" | (continue) "\<not> fl ?q" "clean fl ?b"
    by blast
  then show ?case
  proof cases
    case query
    with Cons.prems have r: "t' = t @ [?q]" "s' = minus_deleted fl [?q] s" "ok = False"
      by (simp_all add: deleteFlatMessages_Cons minus_deleted_query)
    have "loop_run fl (f # fs) s False [?q]"
      using query by (rule loop_run.query_failed)
    with r show ?thesis by simp
  next
    case batch
    with Cons.prems have r: "t' = t @ (?q # ?b)" "s' = minus_deleted fl (?q # ?b) s" "ok = False"
      by (simp_all add: deleteFlatMessages_Cons minus_deleted_query_Cons)
    have "loop_run fl (f # fs) s False (?q # ?b)"
      using batch by (rule loop_run.batch_failed)
    with r show ?thesis by simp
  next
    case continue
    with Cons.prems have "deleteFlatMessages fl fs (minus_deleted fl ?b s, t @ ?q # ?b) = (ok, (s', t'))"
      by (simp add: deleteFlatMessages_Cons)
    from Cons.IH [OF this] obtain e where e: "t' = (t @ ?q # ?b) @ e"
      "s' = minus_deleted fl e (minus_deleted fl ?b s)" "loop_run fl fs (minus_deleted fl ?b s) ok e"
      by blast
    have "t' = t @ (?q # ?b @ e)" "s' = minus_deleted fl (?q # ?b @ e) s"
      using e by (simp_all add: minus_deleted_append minus_deleted_query_Cons)
    moreover have "loop_run fl (f # fs) s ok (?q # ?b @ e)"
      using continue e(3) by (rule loop_run.continue)
    ultimately show ?thesis by simp
  qed
qed

lemma minus_deleted_messages_subset:
  "set (messages (minus_deleted fl e s)) \<subseteq> set (messages s)"
  by (auto simp: minus_deleted_def)

lemma in_flatMessageIds:
  "(m, d) \<in> set (messages s) \<Longrightarrow> flatID d = f \<Longrightarrow> m \<in> set (flatMessageIds f s)"
  by (force simp: flatMessageIds_def whereEq_def)

lemma flatMessageIds_D:
  "m \<in> set (flatMessageIds f s) \<Longrightarrow> \<exists>d. (m, d) \<in> set (messages s) \<and> flatID d = f"
  by (auto simp: flatMessageIds_def whereEq_def)

lemma loop_run_ops:
  "loop_run fl fs s ok e \<Longrightarrow> op \<in> set e \<Longrightarrow>
     (\<exists>f\<in>set fs. op = GetDocs Messages FlatID f) \<or>
     (\<exists>m d. op = DeleteDoc Messages m \<and> (m, d) \<in> set (messages s) \<and> flatID d \<in> set fs)"
proof (induction rule: loop_run.induct)
  case (finished s)
  then show ?case by simp
next
  case (query_failed f fs s)
  then show ?case by simp
next
  case (batch_failed f s fs)
  from batch_failed.prems consider "op = GetDocs Messages FlatID f"
    | m where "op = DeleteDoc Messages m" "m \<in> set (flatMessageIds f s)" by auto
  then show ?case
  proof cases
    case 1
    then show ?thesis by simp
  next
    case 2
    from flatMessageIds_D [OF 2(2)] obtain d where "(m, d) \<in> set (messages s)" "flatID d = f"
      by blast
    with 2(1) show ?thesis by auto
  qed
next
  case (continue f s fs ok e)
  from continue.prems consider "op = GetDocs Messages FlatID f"
    | m where "op = DeleteDoc Messages m" "m \<in> set (flatMessageIds f s)" | "op \<in> set e" by auto
  then show ?case
  proof cases
    case 1
    then show ?thesis by simp
  next
    case 2
    from flatMessageIds_D [OF 2(2)] obtain d where "(m, d) \<in> set (messages s)" "flatID d = f"
      by blast
    with 2(1) show ?thesis by auto
  next
    case 3
    from continue.IH [OF this] consider f' where "f' \<in> set fs" "op = GetDocs Messages FlatID f'"
      | m d where "op = DeleteDoc Messages m" "flatID d \<in> set fs"
          "(m, d) \<in> set (messages (minus_deleted fl (map (DeleteDoc Messages) (flatMessageIds f s)) s))"
      by blast
    then show ?thesis
    proof cases
      case 1
      then show ?thesis by simp
    next
      case 2
      from 2(3) have "(m, d) \<in> set (messages s)"
        using minus_deleted_messages_subset by blast
      with 2(1,2) show ?thesis by auto
    qed
  qed
qed

lemma loop_run_ok:
  "loop_run fl fs s ok e \<Longrightarrow> ok \<Longrightarrow> clean fl e \<and> (\<forall>f\<in>set fs. GetDocs Messages FlatID f \<in> set e)"
proof (induction rule: loop_run.induct)
  case (continue f s fs ok e)
  then show ?case by simp
qed simp_all

lemma aborted_prepend: "clean fl pre \<Longrightarrow> aborted fl e \<Longrightarrow> aborted fl (pre @ e)"
proof -
  assume c: "clean fl pre" and "aborted fl e"
  then obtain p b where "e = p @ b" "clean fl p" "\<not> clean fl b" "batch b"
    unfolding aborted_def by blast
  with c have "pre @ e = (pre @ p) @ b \<and> clean fl (pre @ p) \<and> \<not> clean fl b \<and> batch b"
    by simp
  then show ?thesis unfolding aborted_def by blast
qed

lemma aborted_query: "fl (GetDocs c f v) \<Longrightarrow> aborted fl [GetDocs c f v]"
proof -
  assume "fl (GetDocs c f v)"
  then have "[GetDocs c f v] = [] @ [GetDocs c f v] \<and> clean fl [] \<and> \<not> clean fl [GetDocs c f v] \<and> batch [GetDocs c f v]"
    by (simp add: batch_def)
  then show ?thesis unfolding aborted_def by blast
qed

lemma aborted_batch: "\<not> clean fl (map (DeleteDoc c) ids) \<Longrightarrow> aborted fl (map (DeleteDoc c) ids)"
proof -
  assume n: "\<not> clean fl (map (DeleteDoc c) ids)"
  have "batch (map (DeleteDoc c) ids)" unfolding batch_def by blast
  with n have "map (DeleteDoc c) ids = [] @ map (DeleteDoc c) ids \<and> clean fl [] \<and> \<not> clean fl (map (DeleteDoc c) ids) \<and> batch (map (DeleteDoc c) ids)"
    by simp
  then show ?thesis unfolding aborted_def by blast
qed

lemma loop_run_failed:
  "loop_run fl fs s ok e \<Longrightarrow> \<not> ok \<Longrightarrow> aborted fl e"
proof (induction rule: loop_run.induct)
  case (finished s)
  then show ?case by simp
next
  case (query_failed f fs s)
  then show ?case by (simp add: aborted_query)
next
  case (batch_failed f s fs)
  have "clean fl [GetDocs Messages FlatID f]"
    using batch_failed(1) by simp
  from aborted_prepend [OF this aborted_batch [OF batch_failed(2)]] show ?case
    by simp
next
  case (continue f s fs ok e)
  have c: "clean fl (GetDocs Messages FlatID f # map (DeleteDoc Messages) (flatMessageIds f s))"
    using continue.hyps(1,2) by simp
  have "aborted fl e"
    using continue.IH continue.prems by blast
  from aborted_prepend [OF c this] show ?case
    by simp
qed

lemma loop_run_siblings:
  "loop_run fl fs s ok e \<Longrightarrow> GetDocs Messages FlatID f \<in> set e \<Longrightarrow> \<not> fl (GetDocs Messages FlatID f) \<Longrightarrow>
     (m, d) \<in> set (messages s) \<Longrightarrow> flatID d = f \<Longrightarrow> DeleteDoc Messages m \<in> set e"
proof (induction rule: loop_run.induct)
  case (finished s)
  then show ?case by simp
next
  case (query_failed f' fs s)
  then show ?case by auto
next
  case (batch_failed f' s fs)
  then show ?case by (auto dest: in_flatMessageIds)
next
  case (continue f' s fs ok e)
  let ?b = "map (DeleteDoc Messages) (flatMessageIds f' s)"
  show ?case
  proof (cases "DeleteDoc Messages m \<in> set ?b")
    case True
    then show ?thesis by simp
  next
    case False
    then have kept: "(m, d) \<in> set (messages (minus_deleted fl ?b s))"
      using continue.prems(3) by (auto simp: minus_deleted_def deleted_def)
    from False continue.prems have "f \<noteq> f'" by (auto dest: in_flatMessageIds)
    with continue.prems(1) have "GetDocs Messages FlatID f \<in> set e" by auto
    from continue.IH [OF this continue.prems(2) kept continue.prems(4)] show ?thesis by simp
  qed
qed

lemma minus_deleted_cong:
  "(\<And>c i. (DeleteDoc c i \<in> set e) = (DeleteDoc c i \<in> set e')) \<Longrightarrow> minus_deleted fl e s = minus_deleted fl e' s"
  by (simp add: minus_deleted_def deleted_def)

lemma minus_deleted_flats_same:
  "\<forall>i. DeleteDoc Flats i \<notin> set e \<Longrightarrow> flats (minus_deleted fl e s) = flats s"
  by (simp add: minus_deleted_def deleted_def)

lemma minus_deleted_messages_same:
  "\<forall>i. DeleteDoc Messages i \<notin> set e \<Longrightarrow> messages (minus_deleted fl e s) = messages s"
  by (simp add: minus_deleted_def deleted_def)

lemma minus_deleted_users_same:
  "\<forall>i. DeleteDoc Users i \<notin> set e \<Longrightarrow> users (minus_deleted fl e s) = users s"
  by (simp add: minus_deleted_def deleted_def)

lemma minus_deleted_failed:
  "fl (DeleteDoc c i) \<Longrightarrow> minus_deleted fl [DeleteDoc c i] s = s"
  by (rule store.equality) (auto simp: minus_deleted_def deleted_def filter_id_conv)

lemma getDocsMessages_eq:
  "getDocsMessages fl fld v (s, t) =
     (if fl (GetDocs Messages fld v) then None else Some (whereEq (message_field fld) v (messages s)),
      (s, t @ [GetDocs Messages fld v]))"
  by simp

lemma getDocsFlats_eq:
  "getDocsFlats fl fld v (s, t) =
     (if fl (GetDocs Flats fld v) then None else Some (whereEq (flat_field fld) v (flats s)),
      (s, t @ [GetDocs Flats fld v]))"
  by simp

lemma handleRemoveUser_eq:
  "handleRemoveUser fl u s prev =
     (if fl (DeleteDoc Users u) then failed (s, [DeleteDoc Users u]) prev
      else if fl (GetDocs Messages SenderId u)
        then failed (minus_deleted fl [DeleteDoc Users u] s, [DeleteDoc Users u, GetDocs Messages SenderId u]) prev
      else if \<not> clean fl (sentStage u s) then failed (minus_deleted fl (sentStage u s) s, sentStage u s) prev
      else if fl (flatsQuery u)
        then failed (minus_deleted fl (sentStage u s) s, sentStage u s @ [flatsQuery u]) prev
      else (case deleteFlatMessages fl (ownedFlatIds u s)
                  (minus_deleted fl (sentStage u s) s, sentStage u s @ [flatsQuery u]) of
              (False, r5) \<Rightarrow> failed r5 prev
            | (True, (s5, t5)) \<Rightarrow>
                if \<not> clean fl (flatsStage u s) then failed (minus_deleted fl (flatsStage u s) s5, t5 @ flatsStage u s) prev
                else \<lparr>store_after = minus_deleted fl (flatsStage u s) s5, trace = t5 @ flatsStage u s,
                      cache = filter (\<lambda>user. fst user \<noteq> u) prev, alerted = False\<rparr>))"
proof -
  let ?U = "DeleteDoc Users u"
  let ?s1 = "minus_deleted fl [?U] s"
  let ?B1 = "map (DeleteDoc Messages) (sentMessageIds u s)"
  have m1: "messages ?s1 = messages s"
    by (simp add: minus_deleted_messages_same)
  have s3: "minus_deleted fl ?B1 ?s1 = minus_deleted fl (sentStage u s) s"
    unfolding minus_deleted_append by (rule minus_deleted_cong) (auto simp: sentStage_def)
  have f3: "flats (minus_deleted fl (sentStage u s) s) = flats s"
    by (rule minus_deleted_flats_same) (auto simp: sentStage_def)
  have c: "clean fl (sentStage u s) = (\<not> fl ?U \<and> \<not> fl (GetDocs Messages SenderId u) \<and> clean fl ?B1)"
    by (simp add: sentStage_def)
  show ?thesis
    unfolding handleRemoveUser_def
    by (simp add: deleteDoc_eq deleteAll_eq getDocsMessages_eq getDocsFlats_eq minus_deleted_failed m1 s3 f3 c
          flatsQuery_def flatsStage_def sentMessageIds_def [symmetric] ownedFlatIds_def [symmetric]
          del: deleteDoc.simps getDocsMessages.simps getDocsFlats.simps deleteAll.simps
          split: prod.splits bool.splits)
       (simp add: sentStage_def)
qed

lemma handleRemoveUser_cases
  [consumes 1, case_names user_failed sent_query_failed sent_batch_failed flats_query_failed
     loop_failed flats_batch_failed success]:
  assumes r: "r = handleRemoveUser fl u s prev"
  obtains
    "fl (DeleteDoc Users u)" "trace r = [DeleteDoc Users u]"
    "alerted r" "cache r = prev" "store_after r = s"
  | "\<not> fl (DeleteDoc Users u)" "fl (GetDocs Messages SenderId u)"
    "trace r = [DeleteDoc Users u, GetDocs Messages SenderId u]"
    "alerted r" "cache r = prev" "store_after r = minus_deleted fl (trace r) s"
  | "\<not> fl (DeleteDoc Users u)" "\<not> fl (GetDocs Messages SenderId u)"
    "\<not> clean fl (map (DeleteDoc Messages) (sentMessageIds u s))" "trace r = sentStage u s"
    "alerted r" "cache r = prev" "store_after r = minus_deleted fl (trace r) s"
  | "clean fl (sentStage u s)" "fl (flatsQuery u)" "trace r = sentStage u s @ [flatsQuery u]"
    "alerted r" "cache r = prev" "store_after r = minus_deleted fl (trace r) s"
  | e where "clean fl (sentStage u s)" "\<not> fl (flatsQuery u)"
    "loop_run fl (ownedFlatIds u s) (minus_deleted fl (sentStage u s) s) False e"
    "trace r = sentStage u s @ flatsQuery u # e"
    "alerted r" "cache r = prev" "store_after r = minus_deleted fl (trace r) s"
  | e where "clean fl (sentStage u s)" "\<not> fl (flatsQuery u)"
    "loop_run fl (ownedFlatIds u s) (minus_deleted fl (sentStage u s) s) True e"
    "\<not> clean fl (flatsStage u s)"
    "trace r = sentStage u s @ flatsQuery u # e @ flatsStage u s"
    "alerted r" "cache r = prev" "store_after r = minus_deleted fl (trace r) s"
  | e where "clean fl (sentStage u s)" "\<not> fl (flatsQuery u)"
    "loop_run fl (ownedFlatIds u s) (minus_deleted fl (sentStage u s) s) True e"
    "clean fl (flatsStage u s)"
    "trace r = sentStage u s @ flatsQuery u # e @ flatsStage u s"
    "\<not> alerted r" "cache r = filter (\<lambda>user. fst user \<noteq> u) prev"
    "store_after r = minus_deleted fl (trace r) s"
proof -
  let ?U = "DeleteDoc Users u"
  let ?Q1 = "GetDocs Messages SenderId u"
  let ?T1 = "sentStage u s"
  let ?s3 = "minus_deleted fl ?T1 s"
  let ?T3 = "flatsStage u s"
  have c: "clean fl ?T1 = (\<not> fl ?U \<and> \<not> fl ?Q1 \<and> clean fl (map (DeleteDoc Messages) (sentMessageIds u s)))"
    by (simp add: sentStage_def)
  have q: "minus_deleted fl (e @ [GetDocs c' f v]) s = minus_deleted fl e s" for e c' f v
    by (rule minus_deleted_cong) simp
  have q': "minus_deleted fl (e @ GetDocs c' f v # e') s = minus_deleted fl (e @ e') s" for e e' c' f v
    by (rule minus_deleted_cong) simp
  have q'': "minus_deleted fl [?U, ?Q1] s = minus_deleted fl [?U] s"
    by (rule minus_deleted_cong) simp
  obtain ok5 s5 t5 where L: "deleteFlatMessages fl (ownedFlatIds u s) (?s3, ?T1 @ [flatsQuery u]) = (ok5, (s5, t5))"
    by (metis prod_cases3)
  from deleteFlatMessages_run [OF L] obtain e where e: "t5 = (?T1 @ [flatsQuery u]) @ e"
    "s5 = minus_deleted fl e ?s3" "loop_run fl (ownedFlatIds u s) ?s3 ok5 e"
    by blast
  have s5: "s5 = minus_deleted fl (?T1 @ flatsQuery u # e) s"
    using e(2) by (simp add: minus_deleted_append q' flatsQuery_def)
  have s6: "minus_deleted fl ?T3 s5 = minus_deleted fl (?T1 @ flatsQuery u # e @ ?T3) s"
    unfolding s5 minus_deleted_append by simp
  consider (1) "fl ?U" | (2) "\<not> fl ?U" "fl ?Q1"
    | (3) "\<not> fl ?U" "\<not> fl ?Q1" "\<not> clean fl (map (DeleteDoc Messages) (sentMessageIds u s))"
    | (4) "clean fl ?T1" "fl (flatsQuery u)"
    | (5) "clean fl ?T1" "\<not> fl (flatsQuery u)" "\<not> ok5"
    | (6) "clean fl ?T1" "\<not> fl (flatsQuery u)" "ok5" "\<not> clean fl ?T3"
    | (7) "clean fl ?T1" "\<not> fl (flatsQuery u)" "ok5" "clean fl ?T3"
    using c by blast
  then show thesis
  proof cases
    case 1
    then have "r = failed (s, [?U]) prev"
      using r by (simp add: handleRemoveUser_eq)
    with 1 that(1) show ?thesis by (simp add: failed_def)
  next
    case 2
    then have "r = failed (minus_deleted fl [?U] s, [?U, ?Q1]) prev"
      using r by (simp add: handleRemoveUser_eq)
    with 2 that(2) show ?thesis by (simp add: failed_def q'')
  next
    case 3
    then have "r = failed (?s3, ?T1) prev"
      using r c by (simp add: handleRemoveUser_eq)
    with 3 that(3) show ?thesis by (simp add: failed_def)
  next
    case 4
    then have "r = failed (?s3, ?T1 @ [flatsQuery u]) prev"
      using r c by (simp add: handleRemoveUser_eq)
    with 4 that(4) show ?thesis by (simp add: failed_def q flatsQuery_def)
  next
    case 5
    then have "r = failed (s5, t5) prev"
      using r c L by (simp add: handleRemoveUser_eq)
    with 5 that(5) [of e] e s5 show ?thesis by (simp add: failed_def)
  next
    case 6
    then have "r = failed (minus_deleted fl ?T3 s5, t5 @ ?T3) prev"
      using r c L by (simp add: handleRemoveUser_eq)
    with 6 that(6) [of e] e s6 show ?thesis by (simp add: failed_def)
  next
    case 7
    then have "r = \<lparr>store_after = minus_deleted fl ?T3 s5, trace = t5 @ ?T3,
                      cache = filter (\<lambda>user. fst user \<noteq> u) prev, alerted = False\<rparr>"
      using r c L by (simp add: handleRemoveUser_eq)
    with 7 that(7) [of e] e s6 show ?thesis by simp
  qed
qed

lemma loop_run_message_stage:
  assumes "loop_run fl fs s ok e"
  shows "list_all message_stage_op e"
proof -
  have "message_stage_op op" if "op \<in> set e" for op
    using loop_run_ops [OF assms that] by auto
  then show ?thesis by (simp add: list_all_iff)
qed

lemma handleRemoveUser_aborted:
  assumes "alerted (handleRemoveUser fl u s prev)"
  shows "aborted fl (trace (handleRemoveUser fl u s prev))"
proof -
  define r where "r = handleRemoveUser fl u s prev"
  have U: "aborted fl [DeleteDoc Users u]" if "fl (DeleteDoc Users u)"
    using that aborted_batch [of fl Users "[u]"] by simp
  have a: "alerted r" using assms by (simp add: r_def)
  from r_def have "aborted fl (trace r)"
  proof (cases rule: handleRemoveUser_cases)
    case user_failed
    with U show ?thesis by simp
  next
    case sent_query_failed
    then have "aborted fl ([DeleteDoc Users u] @ [GetDocs Messages SenderId u])"
      by (intro aborted_prepend aborted_query) simp_all
    with sent_query_failed show ?thesis by simp
  next
    case sent_batch_failed
    then have "aborted fl ([DeleteDoc Users u, GetDocs Messages SenderId u] @ map (DeleteDoc Messages) (sentMessageIds u s))"
      by (intro aborted_prepend aborted_batch) simp_all
    with sent_batch_failed show ?thesis by (simp add: sentStage_def)
  next
    case flats_query_failed
    then have "aborted fl (sentStage u s @ [flatsQuery u])"
      unfolding flatsQuery_def by (intro aborted_prepend aborted_query)
    with flats_query_failed show ?thesis by simp
  next
    case (loop_failed e)
    from loop_run_failed [OF loop_failed(3)] have "aborted fl e" by simp
    with loop_failed(1,2) have "aborted fl ((sentStage u s @ [flatsQuery u]) @ e)"
      by (intro aborted_prepend) simp_all
    with loop_failed show ?thesis by simp
  next
    case (flats_batch_failed e)
    from loop_run_ok [OF flats_batch_failed(3)] have "clean fl e" by simp
    with flats_batch_failed(1,2,4) have "aborted fl ((sentStage u s @ flatsQuery u # e) @ flatsStage u s)"
      unfolding flatsStage_def by (intro aborted_prepend aborted_batch) simp_all
    with flats_batch_failed show ?thesis by simp
  next
    case (success e)
    with a show ?thesis by simp
  qed
  then show ?thesis by (simp add: r_def)
qed

lemma handleRemoveUser_clean:
  assumes "\<not> alerted (handleRemoveUser fl u s prev)"
  shows "clean fl (trace (handleRemoveUser fl u s prev))"
proof -
  define r where "r = handleRemoveUser fl u s prev"
  have a: "\<not> alerted r" using assms by (simp add: r_def)
  from r_def have "clean fl (trace r)"
  proof (cases rule: handleRemoveUser_cases)
    case (success e)
    from loop_run_ok [OF success(3)] have "clean fl e" by simp
    with success show ?thesis by simp
  qed (use a in simp_all)
  then show ?thesis by (simp add: r_def)
qed

lemma handleRemoveUser_shape:
  "\<exists>mid fs. trace (handleRemoveUser fl u s prev) = DeleteDoc Users u # mid @ map (DeleteDoc Flats) fs
     \<and> list_all message_stage_op mid"
proof -
  define r where "r = handleRemoveUser fl u s prev"
  have T1: "\<exists>mid. sentStage u s = DeleteDoc Users u # mid \<and> list_all message_stage_op mid"
    by (simp add: sentStage_def list_all_iff)
  then obtain m1 where m1: "sentStage u s = DeleteDoc Users u # m1" "list_all message_stage_op m1"
    by blast
  have intro: "\<exists>mid fs. trace r = DeleteDoc Users u # mid @ map (DeleteDoc Flats) fs \<and> list_all message_stage_op mid"
    if "trace r = DeleteDoc Users u # mid @ map (DeleteDoc Flats) fs" "list_all message_stage_op mid" for mid fs
    using that by blast
  from r_def have "\<exists>mid fs. trace r = DeleteDoc Users u # mid @ map (DeleteDoc Flats) fs \<and> list_all message_stage_op mid"
  proof (cases rule: handleRemoveUser_cases)
    case user_failed
    then show ?thesis by (intro intro [of "[]" "[]"]) simp_all
  next
    case sent_query_failed
    then show ?thesis by (intro intro [of "[GetDocs Messages SenderId u]" "[]"]) simp_all
  next
    case sent_batch_failed
    with m1 show ?thesis by (intro intro [of m1 "[]"]) simp_all
  next
    case flats_query_failed
    with m1 show ?thesis by (intro intro [of "m1 @ [flatsQuery u]" "[]"]) (simp_all add: flatsQuery_def)
  next
    case (loop_failed e)
    with m1 loop_run_message_stage [OF loop_failed(3)] show ?thesis
      by (intro intro [of "m1 @ flatsQuery u # e" "[]"]) (simp_all add: flatsQuery_def)
  next
    case (flats_batch_failed e)
    with m1 loop_run_message_stage [OF flats_batch_failed(3)] show ?thesis
      by (intro intro [of "m1 @ flatsQuery u # e" "ownedFlatIds u s"]) (simp_all add: flatsQuery_def flatsStage_def)
  next
    case (success e)
    with m1 loop_run_message_stage [OF success(3)] show ?thesis
      by (intro intro [of "m1 @ flatsQuery u # e" "ownedFlatIds u s"]) (simp_all add: flatsQuery_def flatsStage_def)
  qed
  then show ?thesis by (simp add: r_def)
qed

lemma precedes_in: "precedes a b t \<Longrightarrow> a \<in> set t \<and> b \<in> set t"
  by (induction t) auto

subsection \<open>Consequences for a whole run\<close>

lemma in_sentMessageIds:
  "(m, d) \<in> set (messages s) \<Longrightarrow> senderId d = u \<Longrightarrow> m \<in> set (sentMessageIds u s)"
  by (force simp: sentMessageIds_def whereEq_def)

lemma in_ownedFlatIds:
  "(f, d) \<in> set (flats s) \<Longrightarrow> ownerID d = Some u \<Longrightarrow> f \<in> set (ownedFlatIds u s)"
  by (force simp: ownedFlatIds_def whereEq_def)

lemma message_kept_or_deleted:
  "(m, d) \<in> set (messages s) \<Longrightarrow>
     (m, d) \<in> set (messages (minus_deleted fl e s)) \<or> DeleteDoc Messages m \<in> set e"
  by (auto simp: minus_deleted_def deleted_def)

lemma sent_siblings:
  assumes "GetDocs Messages SenderId u \<in> set (trace (handleRemoveUser fl u s prev))"
    and "\<not> fl (GetDocs Messages SenderId u)"
    and "(m, d) \<in> set (messages s)" and "senderId d = u"
  shows "DeleteDoc Messages m \<in> set (trace (handleRemoveUser fl u s prev))"
proof -
  define r where "r = handleRemoveUser fl u s prev"
  have q: "GetDocs Messages SenderId u \<in> set (trace r)" using assms(1) by (simp add: r_def)
  have "DeleteDoc Messages m \<in> set (sentStage u s)"
    using in_sentMessageIds [OF assms(3,4)] by (simp add: sentStage_def)
  with r_def q assms(2) have "DeleteDoc Messages m \<in> set (trace r)"
    by (cases rule: handleRemoveUser_cases) simp_all
  then show ?thesis by (simp add: r_def)
qed

lemma flat_siblings:
  assumes "GetDocs Messages FlatID f \<in> set (trace (handleRemoveUser fl u s prev))"
    and "\<not> fl (GetDocs Messages FlatID f)"
    and "(m, d) \<in> set (messages s)" and "flatID d = f"
  shows "DeleteDoc Messages m \<in> set (trace (handleRemoveUser fl u s prev))"
proof -
  define r where "r = handleRemoveUser fl u s prev"
  have q: "GetDocs Messages FlatID f \<in> set (trace r)" using assms(1) by (simp add: r_def)
  have loop: "DeleteDoc Messages m \<in> set (sentStage u s) \<or> DeleteDoc Messages m \<in> set e"
    if "loop_run fl (ownedFlatIds u s) (minus_deleted fl (sentStage u s) s) ok e"
      and "GetDocs Messages FlatID f \<in> set e" for ok e
    using message_kept_or_deleted [OF assms(3), of fl "sentStage u s"]
      loop_run_siblings [OF that assms(2) _ assms(4)] by blast
  have nq: "GetDocs Messages FlatID f \<notin> set (sentStage u s)"
    by (auto simp: sentStage_def)
  from r_def q have "DeleteDoc Messages m \<in> set (trace r)"
  proof (cases rule: handleRemoveUser_cases)
    case (loop_failed e)
    with q nq have "GetDocs Messages FlatID f \<in> set e" by (auto simp: flatsQuery_def)
    from loop [OF loop_failed(3) this] loop_failed(4) show ?thesis by auto
  next
    case (flats_batch_failed e)
    with q nq have "GetDocs Messages FlatID f \<in> set e" by (auto simp: flatsQuery_def flatsStage_def)
    from loop [OF flats_batch_failed(3) this] flats_batch_failed(5) show ?thesis by auto
  next
    case (success e)
    with q nq have "GetDocs Messages FlatID f \<in> set e" by (auto simp: flatsQuery_def flatsStage_def)
    from loop [OF success(3) this] success(5) show ?thesis by auto
  qed (use nq in \<open>auto simp: flatsQuery_def sentStage_def\<close>)
  then show ?thesis by (simp add: r_def)
qed

lemma owned_siblings:
  assumes "DeleteDoc Flats f0 \<in> set (trace (handleRemoveUser fl u s prev))"
    and "f \<in> set (ownedFlatIds u s)"
  shows "DeleteDoc Flats f \<in> set (trace (handleRemoveUser fl u s prev))"
proof -
  from handleRemoveUser_shape [of fl u s prev] obtain mid fs where
    t: "trace (handleRemoveUser fl u s prev) = DeleteDoc Users u # mid @ map (DeleteDoc Flats) fs"
    and mid: "list_all message_stage_op mid"
    by blast
  define r where "r = handleRemoveUser fl u s prev"
  have f0: "DeleteDoc Flats f0 \<in> set (trace r)" using assms(1) by (simp add: r_def)
  have n1: "DeleteDoc Flats f0 \<notin> set (sentStage u s)" by (auto simp: sentStage_def)
  have n2: "DeleteDoc Flats f0 \<notin> set e" if "loop_run fl fs' s' ok e" for fs' s' ok e
    using loop_run_message_stage [OF that] by (auto simp: list_all_iff)
  from r_def f0 have "DeleteDoc Flats f \<in> set (trace r)"
  proof (cases rule: handleRemoveUser_cases)
    case (loop_failed e)
    with f0 n1 n2 [OF loop_failed(3)] show ?thesis by (auto simp: flatsQuery_def)
  next
    case (flats_batch_failed e)
    with assms(2) show ?thesis by (simp add: flatsStage_def)
  next
    case (success e)
    with assms(2) show ?thesis by (simp add: flatsStage_def)
  qed (use n1 in \<open>auto simp: flatsQuery_def sentStage_def\<close>)
  then show ?thesis by (simp add: r_def)
qed

lemma handleRemoveUser_store:
  "store_after (handleRemoveUser fl u s prev) = minus_deleted fl (trace (handleRemoveUser fl u s prev)) s"
proof -
  define r where "r = handleRemoveUser fl u s prev"
  from r_def have "store_after r = minus_deleted fl (trace r) s"
    by (cases rule: handleRemoveUser_cases) (simp_all add: minus_deleted_failed)
  then show ?thesis by (simp add: r_def)
qed

lemma handleRemoveUser_first:
  "\<exists>rest. trace (handleRemoveUser fl u s prev) = DeleteDoc Users u # rest"
  using handleRemoveUser_shape [of fl u s prev] by blast

lemma user_gone:
  assumes "\<not> fl (DeleteDoc Users u)"
  shows "u \<notin> fst ` set (users (store_after (handleRemoveUser fl u s prev)))"
proof -
  from handleRemoveUser_first [of fl u s prev] have "DeleteDoc Users u \<in> set (trace (handleRemoveUser fl u s prev))"
    by auto
  with assms show ?thesis
    by (auto simp: handleRemoveUser_store minus_deleted_def deleted_def)
qed

lemma failure_is_last:
  assumes "op \<in> set (trace (handleRemoveUser fl u s prev))" and "fl op"
  shows "\<exists>pre b. trace (handleRemoveUser fl u s prev) = pre @ b \<and> clean fl pre \<and> batch b \<and> op \<in> set b"
proof -
  let ?t = "trace (handleRemoveUser fl u s prev)"
  have "\<not> clean fl ?t" using assms by (auto simp: clean_iff)
  with handleRemoveUser_clean [of fl u s prev] have "alerted (handleRemoveUser fl u s prev)" by blast
  from handleRemoveUser_aborted [OF this] obtain pre b where
    pb: "?t = pre @ b" "clean fl pre" "batch b"
    unfolding aborted_def by blast
  with assms have "op \<in> set b" by (auto simp: clean_iff)
  with pb show ?thesis by blast
qed

text \<open>What a run without failure leaves in the store, in terms of the three lookups.\<close>

lemma success_leaves_nothing:
  assumes "\<not> alerted (handleRemoveUser fl u s prev)"
  shows "sentMessageIds u (store_after (handleRemoveUser fl u s prev)) = []"
    and "ownedFlatIds u (store_after (handleRemoveUser fl u s prev)) = []"
    and "f \<in> set (ownedFlatIds u s) \<Longrightarrow> flatMessageIds f (store_after (handleRemoveUser fl u s prev)) = []"
proof -
  define r where "r = handleRemoveUser fl u s prev"
  have na: "\<not> alerted r" using assms by (simp add: r_def)
  have cl: "clean fl (trace r)"
    unfolding r_def using assms by (rule handleRemoveUser_clean)
  have st: "store_after r = minus_deleted fl (trace r) s"
    unfolding r_def by (rule handleRemoveUser_store)
  from r_def na obtain e where e: "loop_run fl (ownedFlatIds u s) (minus_deleted fl (sentStage u s) s) True e"
    "trace r = sentStage u s @ flatsQuery u # e @ flatsStage u s"
    by (cases rule: handleRemoveUser_cases) auto
  have q1: "GetDocs Messages SenderId u \<in> set (trace r)"
    unfolding e(2) by (simp add: sentStage_def)
  have gone: "x \<notin> set (messages (store_after r))" if "DeleteDoc Messages (fst x) \<in> set (trace r)" for x
    using that cl unfolding st by (auto simp: minus_deleted_def deleted_def clean_iff)
  have sub: "set (messages (store_after r)) \<subseteq> set (messages s)"
    unfolding st by (rule minus_deleted_messages_subset)
  have "senderId d \<noteq> u" if "(m, d) \<in> set (messages (store_after r))" for m d
  proof
    assume "senderId d = u"
    moreover from that sub have "(m, d) \<in> set (messages s)" by blast
    moreover have "\<not> fl (GetDocs Messages SenderId u)" using cl q1 by (auto simp: clean_iff)
    ultimately have "DeleteDoc Messages m \<in> set (trace r)"
      using q1 sent_siblings [of u fl s prev m d] by (simp add: r_def)
    with gone [of "(m, d)"] that show False by simp
  qed
  then show "sentMessageIds u (store_after (handleRemoveUser fl u s prev)) = []"
    unfolding r_def [symmetric] by (fastforce simp: sentMessageIds_def whereEq_def filter_empty_conv)
  have "ownerID d \<noteq> Some u" if "(f, d) \<in> set (flats (store_after r))" for f d
  proof
    assume o: "ownerID d = Some u"
    from that have in_s: "(f, d) \<in> set (flats s)"
      unfolding st by (auto simp: minus_deleted_def)
    from in_ownedFlatIds [OF in_s o] have "DeleteDoc Flats f \<in> set (trace r)"
      unfolding e(2) by (simp add: flatsStage_def)
    with cl that show False
      unfolding st by (auto simp: minus_deleted_def deleted_def clean_iff)
  qed
  then show "ownedFlatIds u (store_after (handleRemoveUser fl u s prev)) = []"
    unfolding r_def [symmetric] by (fastforce simp: ownedFlatIds_def whereEq_def filter_empty_conv)
  show "flatMessageIds f (store_after (handleRemoveUser fl u s prev)) = []" if f: "f \<in> set (ownedFlatIds u s)"
  proof -
    from loop_run_ok [OF e(1)] f have "GetDocs Messages FlatID f \<in> set e" by simp
    then have qf: "GetDocs Messages FlatID f \<in> set (trace r)" unfolding e(2) by simp
    then have nf: "\<not> fl (GetDocs Messages FlatID f)" using cl by (auto simp: clean_iff)
    have "flatID d \<noteq> f" if "(m, d) \<in> set (messages (store_after r))" for m d
    proof
      assume "flatID d = f"
      moreover from that sub have "(m, d) \<in> set (messages s)" by blast
      ultimately have "DeleteDoc Messages m \<in> set (trace r)"
        using qf nf flat_siblings [of f fl u s prev m d] by (simp add: r_def)
      with gone [of "(m, d)"] that show False by simp
    qed
    then show ?thesis
      unfolding r_def [symmetric] by (fastforce simp: flatMessageIds_def whereEq_def filter_empty_conv)
  qed
qed

text \<open>Runs in which no call fails.\<close>

lemma no_faults_not_alerted: "\<not> alerted (handleRemoveUser no_faults u s prev)"
proof
  assume "alerted (handleRemoveUser no_faults u s prev)"
  from handleRemoveUser_aborted [OF this] obtain b where "\<not> clean no_faults b"
    unfolding aborted_def by blast
  then show False by (simp add: clean_iff no_faults_def)
qed

lemma rerun_after_success:
  assumes "sentMessageIds u s = []" and "ownedFlatIds u s = []" and "u \<notin> fst ` set (users s)"
  shows "store_after (handleRemoveUser no_faults u s prev) = s"
    and "cache (handleRemoveUser no_faults u s prev) = filter (\<lambda>user. fst user \<noteq> u) prev"
proof -
  have nf: "\<not> no_faults op" for op by (simp add: no_faults_def)
  have st: "sentStage u s = [DeleteDoc Users u, GetDocs Messages SenderId u]"
    using assms(1) by (simp add: sentStage_def)
  have fs: "flatsStage u s = []"
    using assms(2) by (simp add: flatsStage_def)
  have u: "minus_deleted no_faults [DeleteDoc Users u, GetDocs Messages SenderId u] s = s"
    using assms(3) by (intro store.equality) (auto simp: minus_deleted_def deleted_def filter_id_conv)
  have r: "handleRemoveUser no_faults u s prev =
      \<lparr>store_after = s, trace = [DeleteDoc Users u, GetDocs Messages SenderId u, flatsQuery u],
       cache = filter (\<lambda>user. fst user \<noteq> u) prev, alerted = False\<rparr>"
    by (simp add: handleRemoveUser_eq nf st fs u assms(2) minus_deleted_Nil)
  show "store_after (handleRemoveUser no_faults u s prev) = s"
    and "cache (handleRemoveUser no_faults u s prev) = filter (\<lambda>user. fst user \<noteq> u) prev"
    by (simp_all add: r)
qed

text \<open>How often a deletion occurs in a trace, when the ids of the stored messages are distinct.\<close>

lemma distinct_count_le_1: "distinct xs \<Longrightarrow> count_list xs x \<le> 1"
  by (induction xs) auto

lemma count_delete_batch:
  assumes "distinct ids"
  shows "count_list (map (DeleteDoc c) ids) (DeleteDoc c' m) \<le> 1"
proof (cases "c' = c")
  case True
  have "inj (DeleteDoc c)" by (simp add: inj_def)
  then have "count_list (map (DeleteDoc c) ids) (DeleteDoc c m) = count_list ids m"
    by (rule count_list_map_conv)
  with distinct_count_le_1 [OF assms, of m] True show ?thesis by simp
next
  case False
  then have "DeleteDoc c' m \<notin> set (map (DeleteDoc c) ids)" by auto
  then show ?thesis by simp
qed

lemma distinct_minus_deleted:
  "distinct (map fst (messages s)) \<Longrightarrow> distinct (map fst (messages (minus_deleted fl e s)))"
  by (simp add: minus_deleted_def distinct_map_filter)

lemma distinct_flatMessageIds:
  "distinct (map fst (messages s)) \<Longrightarrow> distinct (flatMessageIds f s)"
  by (simp add: flatMessageIds_def whereEq_def distinct_map_filter)

lemma distinct_sentMessageIds:
  "distinct (map fst (messages s)) \<Longrightarrow> distinct (sentMessageIds u s)"
  by (simp add: sentMessageIds_def whereEq_def distinct_map_filter)

lemma not_deleted_again:
  assumes "loop_run fl fs (minus_deleted fl t s) ok e"
    and "DeleteDoc Messages m \<in> set t" and "\<not> fl (DeleteDoc Messages m)"
  shows "DeleteDoc Messages m \<notin> set e"
proof
  assume "DeleteDoc Messages m \<in> set e"
  from loop_run_ops [OF assms(1) this] obtain d where "(m, d) \<in> set (messages (minus_deleted fl t s))"
    by auto
  with assms(2,3) show False by (auto simp: minus_deleted_def deleted_def)
qed

lemma loop_run_once:
  "loop_run fl fs s ok e \<Longrightarrow> distinct (map fst (messages s)) \<Longrightarrow> count_list e (DeleteDoc Messages m) \<le> 1"
proof (induction rule: loop_run.induct)
  case (finished s)
  then show ?case by simp
next
  case (query_failed f fs s)
  then show ?case by simp
next
  case (batch_failed f s fs)
  from count_delete_batch [OF distinct_flatMessageIds [OF batch_failed.prems], of Messages f Messages m]
  show ?case by simp
next
  case (continue f s fs ok e)
  let ?b = "map (DeleteDoc Messages) (flatMessageIds f s)"
  have b: "count_list ?b (DeleteDoc Messages m) \<le> 1"
    using count_delete_batch [OF distinct_flatMessageIds [OF continue.prems]] .
  have e: "count_list e (DeleteDoc Messages m) \<le> 1"
    using continue.IH distinct_minus_deleted [OF continue.prems] by blast
  show ?case
  proof (cases "DeleteDoc Messages m \<in> set ?b")
    case True
    with continue.hyps(2) have "\<not> fl (DeleteDoc Messages m)" by (auto simp: clean_iff)
    from not_deleted_again [OF continue.hyps(3) True this] have "count_list e (DeleteDoc Messages m) = 0"
      by simp
    with b show ?thesis by simp
  next
    case False
    then have "count_list ?b (DeleteDoc Messages m) = 0" by simp
    with e show ?thesis by simp
  qed
qed

lemma handleRemoveUser_once:
  assumes "distinct (map fst (messages s))"
  shows "count_list (trace (handleRemoveUser fl u s prev)) (DeleteDoc Messages m) \<le> 1"
proof -
  define r where "r = handleRemoveUser fl u s prev"
  let ?d = "DeleteDoc Messages m"
  have b1: "count_list (sentStage u s) ?d \<le> 1"
    using count_delete_batch [OF distinct_sentMessageIds [OF assms], of Messages u Messages m]
    by (simp add: sentStage_def)
  have t3: "count_list (flatsStage u s) ?d = 0"
    by (rule count_notin) (auto simp: flatsStage_def)
  have loop: "count_list (sentStage u s) ?d + count_list e ?d \<le> 1"
    if l: "loop_run fl (ownedFlatIds u s) (minus_deleted fl (sentStage u s) s) ok e"
      and c: "clean fl (sentStage u s)" for ok e
  proof (cases "?d \<in> set (sentStage u s)")
    case True
    with c have "\<not> fl ?d" by (auto simp: clean_iff)
    from not_deleted_again [OF l True this] have "count_list e ?d = 0" by simp
    with b1 show ?thesis by simp
  next
    case False
    then have "count_list (sentStage u s) ?d = 0" by simp
    with loop_run_once [OF l distinct_minus_deleted [OF assms]] show ?thesis by simp
  qed
  from r_def have "count_list (trace r) ?d \<le> 1"
  proof (cases rule: handleRemoveUser_cases)
    case sent_batch_failed
    with b1 show ?thesis by simp
  next
    case flats_query_failed
    with b1 show ?thesis by (simp add: flatsQuery_def)
  next
    case (loop_failed e)
    with loop [OF loop_failed(3,1)] show ?thesis by (simp add: flatsQuery_def)
  next
    case (flats_batch_failed e)
    with loop [OF flats_batch_failed(3,1)] t3 show ?thesis by (simp add: flatsQuery_def)
  next
    case (success e)
    with loop [OF success(3,1)] t3 show ?thesis by (simp add: flatsQuery_def)
  qed simp_all
  then show ?thesis by (simp add: r_def)
qed

section \<open>The claims about \<open>handleRemoveUser\<close>\<close>

text \<open>The definitions that a run on concrete data unfolds.\<close>

lemmas hru_eval = handleRemoveUser_def failed_def whereEq_def dropDoc_def example_store_def
  example_user_def example_flat_def no_faults_def sent_lookup_fails_def flat_lookup_fails_def
  message_delete_fails_def

subsection \<open>Order of the deletions\<close>

text \<open>
  Claim C1, as amended. In every run of \<open>handleRemoveUser\<close> the deletion of the user
  document is the first call on the store, and no later call deletes a user; every
  deletion of a message is issued before every deletion of a flat: no deletion of a
  message follows the deletion of a flat.
\<close>

theorem removal_order:
  "(\<exists>rest. trace (handleRemoveUser fl u s prev) = DeleteDoc Users u # rest
       \<and> (\<forall>c i. DeleteDoc c i \<in> set rest \<longrightarrow> c \<noteq> Users))
   \<and> (\<forall>f m. \<not> precedes (DeleteDoc Flats f) (DeleteDoc Messages m) (trace (handleRemoveUser fl u s prev)))"
proof -
  from handleRemoveUser_shape [of fl u s prev] obtain mid fs where
    t: "trace (handleRemoveUser fl u s prev) = DeleteDoc Users u # mid @ map (DeleteDoc Flats) fs"
    and mid: "list_all message_stage_op mid"
    by blast
  have no_user: "c \<noteq> Users" if "DeleteDoc c i \<in> set (mid @ map (DeleteDoc Flats) fs)" for c i
  proof -
    from that consider "DeleteDoc c i \<in> set mid" | "DeleteDoc c i \<in> set (map (DeleteDoc Flats) fs)"
      by auto
    then show ?thesis
    proof cases
      case 1
      with mid have "message_stage_op (DeleteDoc c i)" by (simp add: list_all_iff)
      then show ?thesis by (cases c) simp_all
    next
      case 2
      then show ?thesis by auto
    qed
  qed
  have no_flat: "DeleteDoc Flats f \<notin> set (DeleteDoc Users u # mid)" for f
  proof
    assume "DeleteDoc Flats f \<in> set (DeleteDoc Users u # mid)"
    then have "DeleteDoc Flats f \<in> set mid" by simp
    with mid show False by (auto simp: list_all_iff)
  qed
  have "\<not> precedes (DeleteDoc Flats f) (DeleteDoc Messages m) ((DeleteDoc Users u # mid) @ map (DeleteDoc Flats) fs)" for f m
  proof -
    have "\<not> precedes (DeleteDoc Flats f) (DeleteDoc Messages m) (DeleteDoc Users u # mid)"
      using no_flat [of f] precedes_in [of "DeleteDoc Flats f" "DeleteDoc Messages m" "DeleteDoc Users u # mid"]
      by blast
    moreover have "\<not> precedes (DeleteDoc Flats f) (DeleteDoc Messages m) (map (DeleteDoc Flats) fs)"
      using precedes_in [of "DeleteDoc Flats f" "DeleteDoc Messages m" "map (DeleteDoc Flats) fs"]
      by auto
    ultimately show ?thesis
      unfolding precedes_append using no_flat [of f] by blast
  qed
  with t no_user show ?thesis by auto
qed

text \<open>The run on the example store, without failures: its trace, in which the messages of flat \<open>f1\<close> go before the flat.\<close>

theorem removal_order_witness:
  "trace (handleRemoveUser no_faults ''u1'' example_store (users example_store)) =
     [DeleteDoc Users ''u1'', GetDocs Messages SenderId ''u1'', DeleteDoc Messages ''m1'',
      DeleteDoc Messages ''m3'', GetDocs Flats OwnerID ''u1'', GetDocs Messages FlatID ''f1'',
      DeleteDoc Messages ''m2'', GetDocs Messages FlatID ''f2'', DeleteDoc Flats ''f1'',
      DeleteDoc Flats ''f2'']
   \<and> \<not> precedes (DeleteDoc Flats ''f1'') (DeleteDoc Messages ''m2'')
         (trace (handleRemoveUser no_faults ''u1'' example_store (users example_store)))"
  using removal_order [of no_faults "''u1''" example_store "users example_store"]
  by (simp add: hru_eval deleteFlatMessages.simps)

text \<open>
  In the same run the user document is deleted before the messages and before the
  flats: the order required of the cascade (messages, then flats, then the user) is not
  the order of the code.
\<close>

theorem user_deleted_before_messages:
  "precedes (DeleteDoc Users ''u1'') (DeleteDoc Messages ''m1'')
     (trace (handleRemoveUser no_faults ''u1'' example_store (users example_store)))
   \<and> precedes (DeleteDoc Users ''u1'') (DeleteDoc Flats ''f1'')
     (trace (handleRemoveUser no_faults ''u1'' example_store (users example_store)))
   \<and> \<not> precedes (DeleteDoc Messages ''m1'') (DeleteDoc Users ''u1'')
     (trace (handleRemoveUser no_faults ''u1'' example_store (users example_store)))
   \<and> \<not> precedes (DeleteDoc Flats ''f1'') (DeleteDoc Users ''u1'')
     (trace (handleRemoveUser no_faults ''u1'' example_store (users example_store)))"
  by (simp add: hru_eval deleteFlatMessages.simps)

subsection \<open>The list of users held by the caller\<close>

text \<open>
  Claim C7. The list behind \<open>setUsers\<close> loses the target user exactly when the run
  completes without a failed call; when a call has failed the list is the one the
  caller had, and the \<open>catch\<close> block has run.
\<close>

theorem cache_follows_outcome:
  "cache (handleRemoveUser fl u s prev) =
     (if \<exists>op\<in>set (trace (handleRemoveUser fl u s prev)). fl op then prev
      else filter (\<lambda>user. fst user \<noteq> u) prev)
   \<and> alerted (handleRemoveUser fl u s prev) = (\<exists>op\<in>set (trace (handleRemoveUser fl u s prev)). fl op)"
proof -
  define r where "r = handleRemoveUser fl u s prev"
  have a: "alerted r = (\<exists>op\<in>set (trace r). fl op)"
  proof (cases "alerted r")
    case True
    with handleRemoveUser_aborted [of fl u s prev] have "aborted fl (trace r)" by (simp add: r_def)
    then have "\<not> clean fl (trace r)" by (auto simp: aborted_def)
    with True show ?thesis by (simp add: clean_iff)
  next
    case False
    with handleRemoveUser_clean [of fl u s prev] have "clean fl (trace r)" by (simp add: r_def)
    with False show ?thesis by (simp add: clean_iff)
  qed
  from r_def have "cache r = (if alerted r then prev else filter (\<lambda>user. fst user \<noteq> u) prev)"
    by (cases rule: handleRemoveUser_cases) simp_all
  with a show ?thesis by (simp add: r_def)
qed

text \<open>
  With a failed deletion the list is the one the caller had; without failure user \<open>u1\<close>
  has left it.
\<close>

theorem cache_follows_outcome_witness:
  "cache (handleRemoveUser message_delete_fails ''u1'' example_store (users example_store))
     = users example_store
   \<and> map fst (cache (handleRemoveUser no_faults ''u1'' example_store (users example_store))) = [''u2'']"
  using cache_follows_outcome [of message_delete_fails "''u1''" example_store "users example_store"]
    cache_follows_outcome [of no_faults "''u1''" example_store "users example_store"]
  by (simp add: hru_eval deleteFlatMessages.simps)

subsection \<open>A failed lookup\<close>

text \<open>
  Claim C2, as amended. When a lookup fails, the run stops there: the failed lookup is
  the last call of the trace and no call before it has failed, the \<open>catch\<close> block runs
  and the caller's list is unchanged, no flat is deleted. The user document has been
  deleted before the first lookup, so it is no longer in the store.
\<close>

theorem query_failure_aborts:
  assumes "GetDocs c f v \<in> set (trace (handleRemoveUser fl u s prev))" and "fl (GetDocs c f v)"
  shows "alerted (handleRemoveUser fl u s prev) \<and> cache (handleRemoveUser fl u s prev) = prev
    \<and> (\<exists>pre. trace (handleRemoveUser fl u s prev) = pre @ [GetDocs c f v] \<and> (\<forall>op\<in>set pre. \<not> fl op))
    \<and> (\<forall>i. DeleteDoc Flats i \<notin> set (trace (handleRemoveUser fl u s prev)))
    \<and> flats (store_after (handleRemoveUser fl u s prev)) = flats s
    \<and> u \<notin> fst ` set (users (store_after (handleRemoveUser fl u s prev)))"
proof -
  define r where "r = handleRemoveUser fl u s prev"
  let ?q = "GetDocs c f v"
  from failure_is_last [OF assms] obtain pre b where
    pb: "trace r = pre @ b" "clean fl pre" "batch b" "?q \<in> set b"
    unfolding r_def by blast
  from pb(3,4) have b: "b = [?q]" by (auto simp: batch_def)
  have last: "trace r = pre @ [?q]" using pb(1) b by simp
  have "\<not> clean fl (trace r)" using assms(2) last by simp
  with handleRemoveUser_clean [of fl u s prev] have a: "alerted r" unfolding r_def by blast
  from r_def a have c: "cache r = prev"
    by (cases rule: handleRemoveUser_cases) simp_all
  from handleRemoveUser_shape [of fl u s prev] obtain mid fs where
    t: "trace r = DeleteDoc Users u # mid @ map (DeleteDoc Flats) fs" and mid: "list_all message_stage_op mid"
    unfolding r_def by blast
  have fs: "fs = []"
  proof (rule ccontr)
    assume "fs \<noteq> []"
    then have "last (trace r) = DeleteDoc Flats (last fs)"
      unfolding t by (simp add: last_map)
    with last show False by simp
  qed
  have nf: "DeleteDoc Flats i \<notin> set (trace r)" for i
    using mid unfolding t fs by (auto simp: list_all_iff)
  have fl_same: "flats (store_after r) = flats s"
    unfolding r_def handleRemoveUser_store
    by (rule minus_deleted_flats_same) (use nf in \<open>simp add: r_def\<close>)
  have "DeleteDoc Users u \<in> set pre"
    using t last by (cases pre) auto
  with pb(2) have "\<not> fl (DeleteDoc Users u)" by (auto simp: clean_iff)
  then have ug: "u \<notin> fst ` set (users (store_after r))"
    unfolding r_def by (rule user_gone)
  from pb(2) have "\<forall>op\<in>set pre. \<not> fl op" by (simp add: clean_iff)
  with last have "\<exists>pre. trace r = pre @ [?q] \<and> (\<forall>op\<in>set pre. \<not> fl op)" by blast
  with a c nf fl_same ug show ?thesis unfolding r_def by blast
qed

text \<open>The lookup of the messages of flat \<open>f2\<close> fails: the flats are all still there.\<close>

theorem query_failure_aborts_witness:
  "trace (handleRemoveUser flat_lookup_fails ''u1'' example_store (users example_store)) =
     [DeleteDoc Users ''u1'', GetDocs Messages SenderId ''u1'', DeleteDoc Messages ''m1'',
      DeleteDoc Messages ''m3'', GetDocs Flats OwnerID ''u1'', GetDocs Messages FlatID ''f1'',
      DeleteDoc Messages ''m2'', GetDocs Messages FlatID ''f2'']
   \<and> map fst (flats (store_after (handleRemoveUser flat_lookup_fails ''u1''
        example_store (users example_store)))) = [''f1'', ''f2'', ''f3'']
   \<and> cache (handleRemoveUser flat_lookup_fails ''u1'' example_store (users example_store))
       = users example_store"
  using query_failure_aborts [of Messages FlatID "''f2''" flat_lookup_fails "''u1''"
      example_store "users example_store"]
  by (simp add: hru_eval deleteFlatMessages.simps)

text \<open>
  The first lookup fails: nothing after it is attempted, but the store has changed, for
  the user document is gone.
\<close>

theorem query_failure_after_user_deletion:
  "trace (handleRemoveUser sent_lookup_fails ''u1'' example_store (users example_store))
     = [DeleteDoc Users ''u1'', GetDocs Messages SenderId ''u1'']
   \<and> alerted (handleRemoveUser sent_lookup_fails ''u1'' example_store (users example_store))
   \<and> map fst (users example_store) = [''u1'', ''u2'']
   \<and> map fst (users (store_after (handleRemoveUser sent_lookup_fails ''u1''
        example_store (users example_store)))) = [''u2'']
   \<and> store_after (handleRemoveUser sent_lookup_fails ''u1''
        example_store (users example_store)) \<noteq> example_store"
  by (simp add: hru_eval)

subsection \<open>A failed deletion\<close>

text \<open>
  Claim C3, as amended. When a deletion fails, the \<open>catch\<close> block runs and the caller's
  list is unchanged; the only calls issued after the failed deletion are deletions in
  the same collection, those of its own \<open>Promise.all\<close>, so nothing of a later step is
  attempted: after a failed deletion of a message no flat is deleted, and after a failed
  deletion of the user nothing else is called and the store is unchanged. The
  deletions of one \<open>Promise.all\<close> are all attempted: once the lookup of the user's
  messages, or of the messages of a flat, has succeeded, a deletion is issued for each
  of these messages, and once a flat is deleted a deletion is issued for every flat of
  the user. The user document, deleted first, is gone whenever the failed deletion is
  that of a message or of a flat.
\<close>

theorem delete_failure_contained:
  assumes "DeleteDoc c i \<in> set (trace (handleRemoveUser fl u s prev))" and "fl (DeleteDoc c i)"
  shows "alerted (handleRemoveUser fl u s prev) \<and> cache (handleRemoveUser fl u s prev) = prev
    \<and> (\<forall>op. precedes (DeleteDoc c i) op (trace (handleRemoveUser fl u s prev)) \<longrightarrow> (\<exists>j. op = DeleteDoc c j))
    \<and> (c = Messages \<longrightarrow> (\<forall>f. DeleteDoc Flats f \<notin> set (trace (handleRemoveUser fl u s prev))))
    \<and> (c = Users \<longrightarrow> trace (handleRemoveUser fl u s prev) = [DeleteDoc Users u]
          \<and> store_after (handleRemoveUser fl u s prev) = s)
    \<and> (c \<noteq> Users \<longrightarrow> u \<notin> fst ` set (users (store_after (handleRemoveUser fl u s prev))))
    \<and> (\<forall>m d. GetDocs Messages SenderId u \<in> set (trace (handleRemoveUser fl u s prev))
          \<and> \<not> fl (GetDocs Messages SenderId u) \<and> (m, d) \<in> set (messages s) \<and> senderId d = u
          \<longrightarrow> DeleteDoc Messages m \<in> set (trace (handleRemoveUser fl u s prev)))
    \<and> (\<forall>f m d. GetDocs Messages FlatID f \<in> set (trace (handleRemoveUser fl u s prev))
          \<and> \<not> fl (GetDocs Messages FlatID f) \<and> (m, d) \<in> set (messages s) \<and> flatID d = f
          \<longrightarrow> DeleteDoc Messages m \<in> set (trace (handleRemoveUser fl u s prev)))
    \<and> (\<forall>f0 f. DeleteDoc Flats f0 \<in> set (trace (handleRemoveUser fl u s prev)) \<and> f \<in> set (ownedFlatIds u s)
          \<longrightarrow> DeleteDoc Flats f \<in> set (trace (handleRemoveUser fl u s prev)))"
proof -
  define r where "r = handleRemoveUser fl u s prev"
  let ?d = "DeleteDoc c i"
  from failure_is_last [OF assms] obtain pre b where
    pb: "trace r = pre @ b" "clean fl pre" "batch b" "?d \<in> set b"
    unfolding r_def by blast
  from pb(3,4) obtain ids where b: "b = map (DeleteDoc c) ids"
    by (auto simp: batch_def)
  have npre: "?d \<notin> set pre" using pb(2) assms(2) by (auto simp: clean_iff)
  have "\<not> clean fl (trace r)" using assms(2) pb(1,4) by (auto simp: clean_iff)
  with handleRemoveUser_clean [of fl u s prev] have a: "alerted r" unfolding r_def by blast
  from r_def a have ca: "cache r = prev"
    by (cases rule: handleRemoveUser_cases) simp_all
  have after: "\<exists>j. op = DeleteDoc c j" if "precedes ?d op (trace r)" for op
  proof -
    from that npre have "op \<in> set b"
      unfolding pb(1) precedes_append using precedes_in [of ?d op] by blast
    then show ?thesis unfolding b by auto
  qed
  from handleRemoveUser_shape [of fl u s prev] obtain mid fs where
    t: "trace r = DeleteDoc Users u # mid @ map (DeleteDoc Flats) fs" and mid: "list_all message_stage_op mid"
    unfolding r_def by blast
  have ids: "ids \<noteq> []" using pb(4) b by auto
  have lst: "last (trace r) = DeleteDoc c (last ids)"
    unfolding pb(1) b using ids by (simp add: last_map)
  have no_flats: "DeleteDoc Flats f \<notin> set (trace r)" if "c = Messages" for f
  proof -
    have "fs = []"
    proof (rule ccontr)
      assume "fs \<noteq> []"
      then have "last (trace r) = DeleteDoc Flats (last fs)"
        unfolding t by (simp add: last_map)
      with lst that show False by simp
    qed
    then show ?thesis using mid unfolding t by (auto simp: list_all_iff)
  qed
  have user: "trace r = [DeleteDoc Users u] \<and> store_after r = s" if "c = Users"
  proof -
    from that assms(1) have "i = u"
      using mid unfolding r_def [symmetric] t by (auto simp: list_all_iff)
    with that assms(2) have "fl (DeleteDoc Users u)" by simp
    with r_def show ?thesis
      by (cases rule: handleRemoveUser_cases) (simp_all add: sentStage_def)
  qed
  have gone: "u \<notin> fst ` set (users (store_after r))" if "c \<noteq> Users"
  proof -
    have "DeleteDoc Users u \<in> set pre"
    proof (cases pre)
      case Nil
      with pb(1) t b that show ?thesis by (cases ids) auto
    next
      case (Cons x xs)
      with pb(1) t show ?thesis by simp
    qed
    with pb(2) have "\<not> fl (DeleteDoc Users u)" by (auto simp: clean_iff)
    then show ?thesis unfolding r_def by (rule user_gone)
  qed
  have s1: "DeleteDoc Messages m \<in> set (trace r)"
    if "GetDocs Messages SenderId u \<in> set (trace r)" "\<not> fl (GetDocs Messages SenderId u)"
       "(m, d) \<in> set (messages s)" "senderId d = u" for m d
    using that unfolding r_def by (rule sent_siblings)
  have s2: "DeleteDoc Messages m \<in> set (trace r)"
    if "GetDocs Messages FlatID f \<in> set (trace r)" "\<not> fl (GetDocs Messages FlatID f)"
       "(m, d) \<in> set (messages s)" "flatID d = f" for f m d
    using that unfolding r_def by (rule flat_siblings)
  have s3: "DeleteDoc Flats f \<in> set (trace r)"
    if "DeleteDoc Flats f0 \<in> set (trace r)" "f \<in> set (ownedFlatIds u s)" for f0 f
    using that unfolding r_def by (rule owned_siblings)
  show ?thesis
    unfolding r_def [symmetric]
    using a ca after no_flats user gone s1 s2 s3 by blast
qed

text \<open>
  The deletion of message \<open>m1\<close> fails: its sibling \<open>m3\<close> is still attempted, nothing
  follows, and the caller's list is unchanged.
\<close>

theorem delete_failure_contained_witness:
  "trace (handleRemoveUser message_delete_fails ''u1'' example_store (users example_store)) =
     [DeleteDoc Users ''u1'', GetDocs Messages SenderId ''u1'', DeleteDoc Messages ''m1'',
      DeleteDoc Messages ''m3'']
   \<and> cache (handleRemoveUser message_delete_fails ''u1'' example_store (users example_store))
       = users example_store"
  using delete_failure_contained [of Messages "''m1''" message_delete_fails "''u1''"
      example_store "users example_store"]
  by (simp add: hru_eval)

text \<open>
  In that run the user document is deleted although a deletion has failed, and the
  message \<open>m2\<close>, which is attached to a flat of the user and so belongs to the messages
  to delete, is never attempted.
\<close>

theorem user_deleted_despite_failure:
  "DeleteDoc Messages ''m1'' \<in> set (trace (handleRemoveUser message_delete_fails ''u1''
        example_store (users example_store)))
   \<and> map fst (users (store_after (handleRemoveUser message_delete_fails ''u1''
        example_store (users example_store)))) = [''u2'']
   \<and> DeleteDoc Messages ''m2'' \<notin> set (trace (handleRemoveUser message_delete_fails ''u1''
        example_store (users example_store)))"
  by (simp add: hru_eval)

subsection \<open>After a successful run\<close>

text \<open>
  Claim C4. When \<open>handleRemoveUser\<close> completes without a failure, the three lookups find
  nothing in the store it leaves: no message sent by the user, no flat owned by the
  user, and no message attached to a flat that the user owned before the run.
\<close>

theorem no_orphans_after_success:
  assumes "\<not> alerted (handleRemoveUser fl u s prev)"
  shows "whereEq (message_field SenderId) u (messages (store_after (handleRemoveUser fl u s prev))) = []
    \<and> whereEq (flat_field OwnerID) u (flats (store_after (handleRemoveUser fl u s prev))) = []
    \<and> (\<forall>f\<in>set (ownedFlatIds u s).
          whereEq (message_field FlatID) f (messages (store_after (handleRemoveUser fl u s prev))) = [])"
  using success_leaves_nothing [OF assms]
  by (simp add: sentMessageIds_def ownedFlatIds_def flatMessageIds_def)

text \<open>The run on the example store, without failures, leaves user \<open>u2\<close>, flat \<open>f3\<close> and no message.\<close>

theorem no_orphans_after_success_witness:
  "\<not> alerted (handleRemoveUser no_faults ''u1'' example_store (users example_store))
   \<and> map fst (messages (store_after (handleRemoveUser no_faults ''u1'' example_store (users example_store)))) = []
   \<and> map fst (flats (store_after (handleRemoveUser no_faults ''u1'' example_store (users example_store)))) = [''f3'']
   \<and> whereEq (message_field FlatID) ''f1''
        (messages (store_after (handleRemoveUser no_faults ''u1'' example_store (users example_store)))) = []"
  using no_orphans_after_success [of no_faults "''u1''" example_store "users example_store"]
  by (simp add: hru_eval deleteFlatMessages.simps ownedFlatIds_def)

subsection \<open>Running the removal twice\<close>

text \<open>
  Claim C5. When no call on the store fails, \<open>handleRemoveUser\<close> run twice in sequence
  for the same user completes without failure both times, and the second run leaves
  the store and the caller's list as the first run left them.
\<close>

theorem removal_idempotent:
  "\<not> alerted (handleRemoveUser no_faults u s prev)
   \<and> \<not> alerted (handleRemoveUser no_faults u (store_after (handleRemoveUser no_faults u s prev))
                   (cache (handleRemoveUser no_faults u s prev)))
   \<and> store_after (handleRemoveUser no_faults u (store_after (handleRemoveUser no_faults u s prev))
                   (cache (handleRemoveUser no_faults u s prev)))
       = store_after (handleRemoveUser no_faults u s prev)
   \<and> cache (handleRemoveUser no_faults u (store_after (handleRemoveUser no_faults u s prev))
                   (cache (handleRemoveUser no_faults u s prev)))
       = cache (handleRemoveUser no_faults u s prev)"
proof -
  define r where "r = handleRemoveUser no_faults u s prev"
  have na: "\<not> alerted r" unfolding r_def by (rule no_faults_not_alerted)
  have 1: "sentMessageIds u (store_after r) = []" and 2: "ownedFlatIds u (store_after r) = []"
    using success_leaves_nothing(1,2) [of no_faults u s prev] na by (simp_all add: r_def)
  have 3: "u \<notin> fst ` set (users (store_after r))"
    unfolding r_def by (rule user_gone) (simp add: no_faults_def)
  from r_def na have c: "cache r = filter (\<lambda>user. fst user \<noteq> u) prev"
    by (cases rule: handleRemoveUser_cases) simp_all
  have "store_after (handleRemoveUser no_faults u (store_after r) (cache r)) = store_after r"
    using 1 2 3 by (rule rerun_after_success(1))
  moreover have "cache (handleRemoveUser no_faults u (store_after r) (cache r)) = cache r"
    using rerun_after_success(2) [OF 1 2 3, of "cache r"] c by simp
  ultimately show ?thesis
    unfolding r_def [symmetric] using na no_faults_not_alerted by blast
qed

text \<open>On the example store the second run issues the deletion of the user and two lookups, and changes nothing.\<close>

theorem removal_idempotent_witness:
  "map fst (users (store_after (handleRemoveUser no_faults ''u1''
       (store_after (handleRemoveUser no_faults ''u1'' example_store (users example_store)))
       (cache (handleRemoveUser no_faults ''u1'' example_store (users example_store)))))) = [''u2'']
   \<and> store_after (handleRemoveUser no_faults ''u1''
       (store_after (handleRemoveUser no_faults ''u1'' example_store (users example_store)))
       (cache (handleRemoveUser no_faults ''u1'' example_store (users example_store))))
     = store_after (handleRemoveUser no_faults ''u1'' example_store (users example_store))"
  using removal_idempotent [of "''u1''" example_store "users example_store"]
  by (simp add: hru_eval deleteFlatMessages.simps)

subsection \<open>No deletion is issued twice\<close>

text \<open>
  Claim C6. Let the ids of the stored messages be distinct, and let a message be sent
  by the target user and attached to a flat the user owns. Then \<open>handleRemoveUser\<close>
  issues at most one deletion for it, whatever fails, and exactly one as soon as the
  run reaches the messages, that is, when the deletion of the user and the lookup of
  the user's messages do not fail.
\<close>

theorem message_deleted_once:
  assumes "distinct (map fst (messages s))" and "(m, d) \<in> set (messages s)"
    and "senderId d = u" and "flatID d \<in> set (ownedFlatIds u s)"
  shows "count_list (trace (handleRemoveUser fl u s prev)) (DeleteDoc Messages m) \<le> 1
    \<and> (\<not> fl (DeleteDoc Users u) \<and> \<not> fl (GetDocs Messages SenderId u)
        \<longrightarrow> count_list (trace (handleRemoveUser fl u s prev)) (DeleteDoc Messages m) = 1)"
proof -
  define r where "r = handleRemoveUser fl u s prev"
  have le: "count_list (trace r) (DeleteDoc Messages m) \<le> 1"
    unfolding r_def using assms(1) by (rule handleRemoveUser_once)
  have "count_list (trace r) (DeleteDoc Messages m) = 1"
    if "\<not> fl (DeleteDoc Users u)" "\<not> fl (GetDocs Messages SenderId u)"
  proof -
    from r_def that have "GetDocs Messages SenderId u \<in> set (trace r)"
      by (cases rule: handleRemoveUser_cases) (simp_all add: sentStage_def)
    then have "DeleteDoc Messages m \<in> set (trace r)"
      unfolding r_def using that(2) assms(2,3) by (rule sent_siblings)
    then have "count_list (trace r) (DeleteDoc Messages m) \<noteq> 0"
      by (simp add: count_list_0_iff)
    with le show ?thesis by simp
  qed
  with le show ?thesis unfolding r_def by blast
qed

text \<open>
  Message \<open>m3\<close> of the example store is sent by \<open>u1\<close> about \<open>u1\<close>'s flat \<open>f1\<close>: one
  deletion, in the batch of the user's messages, none in the batch of the flat.
\<close>

theorem message_deleted_once_witness:
  "distinct (map fst (messages example_store))
   \<and> (''m3'', \<lparr>senderId = ''u1'', flatID = ''f1''\<rparr>) \<in> set (messages example_store)
   \<and> ''f1'' \<in> set (ownedFlatIds ''u1'' example_store)
   \<and> count_list (trace (handleRemoveUser no_faults ''u1'' example_store (users example_store)))
        (DeleteDoc Messages ''m3'') = 1"
proof -
  have 1: "distinct (map fst (messages example_store))"
    by (simp add: example_store_def)
  have 2: "(''m3'', \<lparr>senderId = ''u1'', flatID = ''f1''\<rparr>) \<in> set (messages example_store)"
    by (simp add: example_store_def)
  have 3: "senderId \<lparr>senderId = ''u1'', flatID = ''f1''\<rparr> = ''u1''" by simp
  have 4: "flatID \<lparr>senderId = ''u1'', flatID = ''f1''\<rparr> \<in> set (ownedFlatIds ''u1'' example_store)"
    by (simp add: ownedFlatIds_def whereEq_def example_store_def example_flat_def)
  from message_deleted_once [OF 1 2 3 4, of no_faults "users example_store"] 1 2 4
  show ?thesis by (simp add: no_faults_def)
qed

section \<open>Properties of the form actions\<close>

lemma collect_Nil: "(collect es = []) = (\<forall>e\<in>set es. snd e = None)"
  by (induction es rule: collect.induct) auto

lemma not_falsy_or: "(\<not> falsy_or v p) = (\<exists>x. v = Some x \<and> x \<noteq> [] \<and> \<not> p x)"
  by (cases v) (auto simp: falsy_or_def)

lemma validateField_null: "validateField ''email'' None \<noteq> None"
  by (simp add: validateField_def falsy_or_def)

lemma getDocsUsers_eq:
  "fst (getDocsUsers fl fld v (s, t)) =
     (if fl (GetDocs Users fld v) then None else Some (whereEq (user_field fld) v (users s)))"
  by simp

lemma loginAction_validated:
  assumes "validateField ''email'' (formData ''email'') = None"
    and "validateField ''password'' (formData ''password'') = None"
    and "formData ''email'' = Some e" and "\<not> fl (GetDocs Users Email e)"
  shows "loginAction fl s formData =
     (case whereEq (user_field Email) e (users s) of
        [] \<Rightarrow> Errors [(''general'', ''Invalid credentials.'')]
      | (userID, user) # _ \<Rightarrow>
          if password user \<noteq> formData ''password'' then Errors [(''general'', ''Invalid credentials.'')]
          else SuccessUser userID)"
  using assms by (simp add: loginAction_def Let_def split: list.splits)

lemma loginAction_rejected:
  assumes "validateField ''email'' (formData ''email'') \<noteq> None
      \<or> validateField ''password'' (formData ''password'') \<noteq> None"
  shows "loginAction fl s formData = loginAction fl s' formData"
  using assms by (auto simp: loginAction_def Let_def collect_Nil)

lemma login_invalid_credentials:
  assumes "\<forall>v. \<not> fl (GetDocs Users Email v)"
    and "\<forall>d\<in>set (users s). email (snd d) = formData ''email'' \<longrightarrow> password (snd d) \<noteq> formData ''password''"
    and "validateField ''email'' (formData ''email'') = None"
    and "validateField ''password'' (formData ''password'') = None"
  shows "loginAction fl s formData = Errors [(''general'', ''Invalid credentials.'')]"
proof -
  from assms(3) obtain e where e: "formData ''email'' = Some e"
    using validateField_null by (cases "formData ''email''") auto
  have q: "\<not> fl (GetDocs Users Email e)"
    using assms(1) by simp
  have "password (snd d) \<noteq> formData ''password''" if "d \<in> set (whereEq (user_field Email) e (users s))" for d
    using that assms(2) e by (auto simp: whereEq_def)
  then show ?thesis
    unfolding loginAction_validated [of formData e fl s, OF assms(3,4) e q]
    by (cases "whereEq (user_field Email) e (users s)") fastforce+
qed

lemma login_store_hidden:
  assumes "\<forall>v. \<not> fl (GetDocs Users Email v)"
    and "\<forall>d\<in>set (users s). email (snd d) = formData ''email'' \<longrightarrow> password (snd d) \<noteq> formData ''password''"
  shows "loginAction fl s formData = loginAction fl (s\<lparr>users := []\<rparr>) formData"
proof (cases "validateField ''email'' (formData ''email'') = None
    \<and> validateField ''password'' (formData ''password'') = None")
  case True
  then have "loginAction fl s formData = Errors [(''general'', ''Invalid credentials.'')]"
    using login_invalid_credentials [OF assms] by simp
  moreover have "loginAction fl (s\<lparr>users := []\<rparr>) formData = Errors [(''general'', ''Invalid credentials.'')]"
    using True by (intro login_invalid_credentials [OF assms(1)]) simp_all
  ultimately show ?thesis by simp
next
  case False
  then have "validateField ''email'' (formData ''email'') \<noteq> None
      \<or> validateField ''password'' (formData ''password'') \<noteq> None"
    by simp
  then show ?thesis by (rule loginAction_rejected)
qed

lemma registerErrors_Nil:
  "(registerErrors en formData = []) =
     (\<not> falsy_or (formData ''firstName'') (\<lambda>v. length v < 2)
      \<and> \<not> falsy_or (formData ''lastName'') (\<lambda>v. length v < 2)
      \<and> \<not> falsy_or (formData ''email'') (\<lambda>v. \<not> emailRegex v)
      \<and> \<not> falsy_or (formData ''password'') (\<lambda>v. length v < 6 \<or> \<not> hasLetter v \<or> \<not> hasDigit v \<or> \<not> hasSpecial v)
      \<and> formData ''password'' = formData ''confirmPassword''
      \<and> \<not> falsy_or (formData ''birthDate'')
            (\<lambda>v. js_isNaN (dateTime en v) \<or> js_lt (calculateAge en v) (Fin 18) \<or> js_lt (Fin 120) (calculateAge en v)))"
  by (auto simp: registerErrors_def collect_Nil falsy_or_def split: option.splits)

lemma newFlatErrors_Nil:
  "(newFlatErrors en formData = []) =
     (\<not> falsy_or (formData ''adTitle'') (\<lambda>v. length v < 5 \<or> length v > 60)
      \<and> \<not> falsy_or (formData ''city'') (\<lambda>v. length v < 2)
      \<and> \<not> falsy_or (formData ''streetName'') (\<lambda>v. length v < 2)
      \<and> \<not> falsy_or (formData ''streetNumber'') (\<lambda>v. js_isNaN (number en v))
      \<and> \<not> falsy_or (formData ''areaSize'') (\<lambda>v. js_isNaN (number en v) \<or> js_le (number en v) (Fin 0))
      \<and> \<not> falsy_or (formData ''yearBuilt'')
            (\<lambda>v. js_isNaN (number en v) \<or> js_lt (number en v) (Fin 1900) \<or>
                  js_lt (Fin (of_int (currentYear en))) (number en v))
      \<and> \<not> falsy_or (formData ''rentPrice'') (\<lambda>v. js_isNaN (number en v) \<or> js_le (number en v) (Fin 0))
      \<and> \<not> falsy_or (formData ''dateAvailable'')
            (\<lambda>v. js_lt (midnightOf en v) (today en) \<or> js_lt (oneYearFromToday en) (midnightOf en v))
      \<and> \<not> falsy_or (formData ''image'') (\<lambda>v. False))"
  by (auto simp: newFlatErrors_def collect_Nil falsy_or_def split: option.splits)

lemma js_positive: "\<not> js_isNaN x \<Longrightarrow> \<not> js_le x (Fin 0) \<Longrightarrow> js_lt (Fin 0) x"
  by (cases x) (simp_all add: js_isNaN_def)

lemma js_between:
  "\<not> js_isNaN x \<Longrightarrow> \<not> js_lt x (Fin a) \<Longrightarrow> \<not> js_lt (Fin b) x \<Longrightarrow> js_le (Fin a) x \<and> js_le x (Fin b)"
  by (cases x) (simp_all add: js_isNaN_def)

section \<open>The claims about the form actions\<close>

text \<open>The definitions that an action on concrete data unfolds.\<close>

lemmas validate_eval = validateField_def falsy_or_def emailRegex_def plain_def hasLetter_def hasDigit_def
  hasSpecial_def isLetter_def isDigit_def isWord_def isSpace_def

lemmas register_eval = registerAction_def registerErrors_def example_register_form_def example_env_def
  example_store_def example_user_def addDocUsers_def whereEq_def no_faults_def Let_def js_isNaN_def

lemmas new_flat_eval = newFlatAction_def newFlatErrors_def example_flat_form_def example_env_def
  example_number_def addDocFlats_def toNumber_def no_faults_def Let_def js_isNaN_def falsy_or_def

subsection \<open>Login does not tell whether an account exists\<close>

text \<open>
  Claim C8, as amended. Take two login attempts: the first with an email that is
  registered, and a password that differs from the password of every account with that
  email; the second with an email that no account has; and let the lookup in the store
  succeed. An attempt whose fields pass the format validation is answered with the
  error \<open>general: 'Invalid credentials.'\<close>, the same value for both attempts. And in
  every case, valid fields or not, each attempt gets the answer it would get from a
  store without any account: the answer does not tell whether the email is registered.
\<close>

theorem login_hides_registration:
  assumes "\<forall>v. \<not> fl (GetDocs Users Email v)"
    and "\<exists>d\<in>set (users s). email (snd d) = fd1 ''email''"
    and "\<forall>d\<in>set (users s). email (snd d) = fd1 ''email'' \<longrightarrow> password (snd d) \<noteq> fd1 ''password''"
    and "\<forall>d\<in>set (users s). email (snd d) \<noteq> fd2 ''email''"
  shows "(validateField ''email'' (fd1 ''email'') = None \<and> validateField ''password'' (fd1 ''password'') = None
          \<longrightarrow> loginAction fl s fd1 = Errors [(''general'', ''Invalid credentials.'')])
    \<and> (validateField ''email'' (fd2 ''email'') = None \<and> validateField ''password'' (fd2 ''password'') = None
          \<longrightarrow> loginAction fl s fd2 = Errors [(''general'', ''Invalid credentials.'')])
    \<and> loginAction fl s fd1 = loginAction fl (s\<lparr>users := []\<rparr>) fd1
    \<and> loginAction fl s fd2 = loginAction fl (s\<lparr>users := []\<rparr>) fd2"
proof -
  have 2: "\<forall>d\<in>set (users s). email (snd d) = fd2 ''email'' \<longrightarrow> password (snd d) \<noteq> fd2 ''password''"
    using assms(4) by blast
  show ?thesis
    using login_invalid_credentials [OF assms(1,3)] login_invalid_credentials [OF assms(1) 2]
      login_store_hidden [OF assms(1,3)] login_store_hidden [OF assms(1) 2]
    by blast
qed

text \<open>
  On the example store: \<open>ann@example.com\<close> is registered with another password,
  \<open>cara@example.com\<close> is not registered.
\<close>

theorem login_hides_registration_witness:
  "loginAction no_faults example_store (example_login_form ''ann@example.com'' ''wrong12!'')
       = Errors [(''general'', ''Invalid credentials.'')]
   \<and> loginAction no_faults example_store (example_login_form ''cara@example.com'' ''wrong12!'')
       = Errors [(''general'', ''Invalid credentials.'')]"
proof -
  have 1: "validateField ''email'' (example_login_form ''ann@example.com'' ''wrong12!'' ''email'') = None"
    by (simp add: example_login_form_def validate_eval)
  have 2: "validateField ''password'' (example_login_form ''ann@example.com'' ''wrong12!'' ''password'') = None"
    by (simp add: example_login_form_def validate_eval)
  have 3: "validateField ''email'' (example_login_form ''cara@example.com'' ''wrong12!'' ''email'') = None"
    by (simp add: example_login_form_def validate_eval)
  have 4: "validateField ''password'' (example_login_form ''cara@example.com'' ''wrong12!'' ''password'') = None"
    by (simp add: example_login_form_def validate_eval)
  have 5: "\<forall>v. \<not> no_faults (GetDocs Users Email v)"
    by (simp add: no_faults_def)
  have 6: "\<exists>d\<in>set (users example_store). email (snd d) = example_login_form ''ann@example.com'' ''wrong12!'' ''email''"
    by (simp add: example_store_def example_user_def example_login_form_def)
  have 7: "\<forall>d\<in>set (users example_store). email (snd d) = example_login_form ''ann@example.com'' ''wrong12!'' ''email''
        \<longrightarrow> password (snd d) \<noteq> example_login_form ''ann@example.com'' ''wrong12!'' ''password''"
    by (simp add: example_store_def example_user_def example_login_form_def)
  have 8: "\<forall>d\<in>set (users example_store). email (snd d) \<noteq> example_login_form ''cara@example.com'' ''wrong12!'' ''email''"
    by (simp add: example_store_def example_user_def example_login_form_def)
  from login_hides_registration [of no_faults example_store
      "example_login_form ''ann@example.com'' ''wrong12!''"
      "example_login_form ''cara@example.com'' ''wrong12!''", OF 5 6 7 8] 1 2 3 4
  show ?thesis by blast
qed

text \<open>
  A password of three characters is rejected by the format validation before the store
  is looked at: with the registered email \<open>ann@example.com\<close> (whose password is
  \<open>secret1!\<close>, as the successful login shows) and with the unregistered
  \<open>cara@example.com\<close>, the answer is the error of the password field, not
  \<open>'Invalid credentials.'\<close>.
\<close>

theorem login_format_error_first:
  "loginAction no_faults example_store (example_login_form ''ann@example.com'' ''secret1!'') = SuccessUser ''u1''
   \<and> loginAction no_faults example_store (example_login_form ''ann@example.com'' ''abc'')
       = Errors [(''password'', ''Password must be at least 6 characters long.'')]
   \<and> loginAction no_faults example_store (example_login_form ''cara@example.com'' ''abc'')
       = Errors [(''password'', ''Password must be at least 6 characters long.'')]
   \<and> loginAction no_faults example_store (example_login_form ''ann@example.com'' ''abc'')
       \<noteq> Errors [(''general'', ''Invalid credentials.'')]"
  by (simp add: loginAction_def Let_def example_login_form_def example_store_def example_user_def
        whereEq_def no_faults_def validate_eval)

subsection \<open>Registration\<close>

text \<open>
  Claim C9. \<open>registerAction\<close> changes the store only by adding one user document, and
  only when every field validation has passed and no stored user has the submitted
  email; the document added has \<open>favoriteFlats = []\<close> and \<open>isAdmin = false\<close>. Whenever the
  answer holds errors, the store is unchanged.
\<close>

theorem register_guarded:
  assumes "registerAction en fl s formData = (resp, s')"
  shows "(s' \<noteq> s \<longrightarrow>
            registerErrors en formData = []
          \<and> (\<forall>d\<in>set (users s). email (snd d) \<noteq> formData ''email'')
          \<and> resp = Success
          \<and> (\<exists>doc. s' = s\<lparr>users := users s @ [(newId en, doc)]\<rparr>
                \<and> favoriteFlats doc = [] \<and> \<not> isAdmin doc \<and> email doc = formData ''email''))
    \<and> (\<forall>errors. resp = Errors errors \<longrightarrow> s' = s)"
proof (cases "registerErrors en formData = []")
  case False
  with assms show ?thesis by (auto simp: registerAction_def Let_def)
next
  case True
  then obtain e where e: "formData ''email'' = Some e"
    by (auto simp: registerErrors_Nil not_falsy_or)
  show ?thesis
  proof (cases "fl (GetDocs Users Email e) \<or> whereEq (user_field Email) e (users s) \<noteq> [] \<or> fl (AddDoc Users)")
    case True
    with assms \<open>registerErrors en formData = []\<close> e show ?thesis
      by (auto simp: registerAction_def Let_def addDocUsers_def split: if_splits)
  next
    case False
    then have none: "\<forall>d\<in>set (users s). email (snd d) \<noteq> formData ''email''"
      using e by (auto simp: whereEq_def filter_empty_conv)
    from False assms \<open>registerErrors en formData = []\<close> e
    have r: "resp = Success" "s' = s\<lparr>users := users s @ [(newId en,
        \<lparr>firstName = formData ''firstName'', lastName = formData ''lastName'',
         email = formData ''email'', password = formData ''password'',
         birthDate = formData ''birthDate'', favoriteFlats = [],
         isAdmin = False, createdAt = now en\<rparr>)]\<rparr>"
      by (auto simp: registerAction_def Let_def addDocUsers_def)
    from r(2) have "\<exists>doc. s' = s\<lparr>users := users s @ [(newId en, doc)]\<rparr>
        \<and> favoriteFlats doc = [] \<and> \<not> isAdmin doc \<and> email doc = formData ''email''"
      by (intro exI [of _ "\<lparr>firstName = formData ''firstName'', lastName = formData ''lastName'',
         email = formData ''email'', password = formData ''password'',
         birthDate = formData ''birthDate'', favoriteFlats = [],
         isAdmin = False, createdAt = now en\<rparr>"]) simp
    with r(1) none \<open>registerErrors en formData = []\<close> show ?thesis by simp
  qed
qed

text \<open>
  The example form is valid and its email is new: the document is added. The same form
  with the email of an existing account is answered by an error, and changes nothing.
\<close>

theorem register_guarded_witness:
  "fst (registerAction example_env no_faults example_store example_register_form) = Success
   \<and> map fst (users (snd (registerAction example_env no_faults example_store example_register_form)))
       = [''u1'', ''u2'', ''n1'']
   \<and> snd (registerAction example_env no_faults example_store
            (example_register_form(''email'' \<mapsto> ''ann@example.com''))) = example_store"
  using register_guarded [of example_env no_faults example_store example_register_form
      "fst (registerAction example_env no_faults example_store example_register_form)"
      "snd (registerAction example_env no_faults example_store example_register_form)"]
    register_guarded [of example_env no_faults example_store "example_register_form(''email'' \<mapsto> ''ann@example.com'')"
      "fst (registerAction example_env no_faults example_store (example_register_form(''email'' \<mapsto> ''ann@example.com'')))"
      "snd (registerAction example_env no_faults example_store (example_register_form(''email'' \<mapsto> ''ann@example.com'')))"]
  by (simp add: register_eval validate_eval)

subsection \<open>A new flat\<close>

text \<open>
  Claim C10. When \<open>newFlatAction\<close> succeeds, it has added one flat document, in which
  \<open>streetNumber\<close>, \<open>areaSize\<close>, \<open>yearBuilt\<close> and \<open>rentPrice\<close> are the numbers that \<open>Number\<close>
  makes of the submitted strings, none of them \<open>NaN\<close>, \<open>ownerID\<close> is the id of the
  logged-in user as \<open>localStorage\<close> has it, and the validated bounds hold of the stored
  numbers: \<open>areaSize > 0\<close>, \<open>rentPrice > 0\<close>, and \<open>yearBuilt\<close> between 1900 and the current year.
\<close>

theorem new_flat_stored:
  assumes "newFlatAction en fl s formData = (Success, s')"
  shows "\<exists>doc sn a y p.
      s' = s\<lparr>flats := flats s @ [(newId en, doc)]\<rparr>
    \<and> formData ''streetNumber'' = Some sn \<and> streetNumber doc = number en sn \<and> \<not> js_isNaN (streetNumber doc)
    \<and> formData ''areaSize'' = Some a \<and> areaSize doc = number en a \<and> \<not> js_isNaN (areaSize doc)
    \<and> formData ''yearBuilt'' = Some y \<and> yearBuilt doc = number en y \<and> \<not> js_isNaN (yearBuilt doc)
    \<and> formData ''rentPrice'' = Some p \<and> rentPrice doc = number en p \<and> \<not> js_isNaN (rentPrice doc)
    \<and> ownerID doc = loggedInUser en
    \<and> js_lt (Fin 0) (areaSize doc) \<and> js_lt (Fin 0) (rentPrice doc)
    \<and> js_le (Fin 1900) (yearBuilt doc) \<and> js_le (yearBuilt doc) (Fin (of_int (currentYear en)))"
proof -
  have ok: "newFlatErrors en formData = []"
    using assms by (auto simp: newFlatAction_def Let_def split: if_splits)
  from ok obtain sn where sn: "formData ''streetNumber'' = Some sn" "\<not> js_isNaN (number en sn)"
    unfolding newFlatErrors_Nil not_falsy_or by blast
  from ok obtain a where a: "formData ''areaSize'' = Some a" "\<not> js_isNaN (number en a)"
    "\<not> js_le (number en a) (Fin 0)"
    unfolding newFlatErrors_Nil not_falsy_or by blast
  from ok obtain y where y: "formData ''yearBuilt'' = Some y" "\<not> js_isNaN (number en y)"
    "\<not> js_lt (number en y) (Fin 1900)" "\<not> js_lt (Fin (of_int (currentYear en))) (number en y)"
    unfolding newFlatErrors_Nil not_falsy_or by blast
  from ok obtain p where p: "formData ''rentPrice'' = Some p" "\<not> js_isNaN (number en p)"
    "\<not> js_le (number en p) (Fin 0)"
    unfolding newFlatErrors_Nil not_falsy_or by blast
  from ok obtain imagePath where i: "formData ''image'' = Some imagePath"
    unfolding newFlatErrors_Nil not_falsy_or by blast
  define doc where "doc =
    \<lparr>adTitle = formData ''adTitle'', city = formData ''city'', streetName = formData ''streetName'',
     streetNumber = number en sn, areaSize = number en a, hasAC = (formData ''hasAC'' = Some ''on''),
     yearBuilt = number en y, rentPrice = number en p, dateAvailable = formData ''dateAvailable'',
     image = imagePath, flatCreatedAt = now en, ownerID = loggedInUser en\<rparr>"
  have s': "s' = s\<lparr>flats := flats s @ [(newId en, doc)]\<rparr>"
    using assms ok sn(1) a(1) y(1) p(1) i
    by (auto simp: newFlatAction_def Let_def addDocFlats_def toNumber_def doc_def split: if_splits)
  have f: "streetNumber doc = number en sn" "areaSize doc = number en a" "yearBuilt doc = number en y"
    "rentPrice doc = number en p" "ownerID doc = loggedInUser en"
    by (simp_all add: doc_def)
  have b: "js_lt (Fin 0) (number en a)" "js_lt (Fin 0) (number en p)"
    "js_le (Fin 1900) (number en y) \<and> js_le (number en y) (Fin (of_int (currentYear en)))"
    using js_positive [OF a(2,3)] js_positive [OF p(2,3)] js_between [OF y(2,3,4)] by simp_all
  show ?thesis
    using s' sn a(1,2) y(1,2) p(1,2) b
    by (intro exI [of _ doc] exI [of _ sn] exI [of _ a] exI [of _ y] exI [of _ p]) (simp add: f)
qed

text \<open>The example form, submitted by user \<open>u1\<close> in 2026: the flat is stored.\<close>

theorem new_flat_stored_witness:
  "newFlatAction example_env no_faults example_store example_flat_form =
     (Success, example_store\<lparr>flats := flats example_store @
        [(''n1'', (example_flat ''u1'')\<lparr>flatCreatedAt := 1793620800000\<rparr>)]\<rparr>)
   \<and> js_lt (Fin 0) (areaSize (example_flat ''u1''))
   \<and> js_le (yearBuilt (example_flat ''u1'')) (Fin 2026)"
proof -
  have r: "newFlatAction example_env no_faults example_store example_flat_form =
     (Success, example_store\<lparr>flats := flats example_store @
        [(''n1'', (example_flat ''u1'')\<lparr>flatCreatedAt := 1793620800000\<rparr>)]\<rparr>)"
    by (simp add: new_flat_eval example_flat_def)
  from new_flat_stored [OF r] r show ?thesis
    by (simp add: example_flat_def)
qed

end
